theory Spec2Isabelle
  imports Main "HOL-Library.Word"
begin

unbundle bit_operations_syntax

section \<open>Data model of main.cpp\<close>

type_synonym u8 = "8 word"
type_synonym u32 = "32 word"
type_synonym u64 = "64 word"

text \<open>
  \<^verbatim>\<open>enum class TransactionType { INVALID = -1, GENERATE = 0, TRANSFER = 1, RECEIPT = 2 }\<close>
\<close>

datatype TransactionType = INVALID | GENERATE | TRANSFER | RECEIPT

text \<open>
  \<^verbatim>\<open>union Transaction { TransactionType type; Blank blank; Transfer transfer; Receipt receipt; }\<close>
  Every member starts with the tag and continues with 16 bytes: four \<^verbatim>\<open>unsigned\<close> for
  \<^verbatim>\<open>Transfer\<close> and \<^verbatim>\<open>Receipt\<close>, sixteen \<^verbatim>\<open>unsigned char\<close> for \<^verbatim>\<open>Blank\<close>. The members
  overlap, and \<^verbatim>\<open>generateReturn\<close> reads \<^verbatim>\<open>receipt.balance\<close> of a block without looking at
  its tag, so the union is modelled as the tag followed by its four 32-bit slots; the
  member names of the source are views of the slots.
\<close>

record Transaction =
  type :: TransactionType
  slot0 :: u32
  slot1 :: u32
  slot2 :: u32
  slot3 :: u32

abbreviation senderAccount :: "Transaction \<Rightarrow> u32" where
  "senderAccount \<equiv> slot0"

abbreviation receiverAccount :: "Transaction \<Rightarrow> u32" where
  "receiverAccount \<equiv> slot1"

abbreviation transfer_prevReceipt :: "Transaction \<Rightarrow> u32" where
  "transfer_prevReceipt \<equiv> slot2"

abbreviation amount :: "Transaction \<Rightarrow> u32" where
  "amount \<equiv> slot3"

abbreviation account :: "Transaction \<Rightarrow> u32" where
  "account \<equiv> slot0"

abbreviation receipt_prevReceipt :: "Transaction \<Rightarrow> u32" where
  "receipt_prevReceipt \<equiv> slot1"

abbreviation prevTransfer :: "Transaction \<Rightarrow> u32" where
  "prevTransfer \<equiv> slot2"

abbreviation balance :: "Transaction \<Rightarrow> u32" where
  "balance \<equiv> slot3"

text \<open>
  \<^verbatim>\<open>struct Block { unsigned index; unsigned prevHash; Clock::duration timestamp;
  Transaction transaction; unsigned nonce; unsigned threshold; }\<close>
  The duration is a 64-bit tick count, which aligns the struct to 8 bytes: the six
  members take 44 bytes and \<^verbatim>\<open>sizeof(Block)\<close> is 48. The four bytes after \<^verbatim>\<open>threshold\<close>
  belong to the object that \<^verbatim>\<open>hashBlock\<close> hashes, so the model keeps them, as the field
  \<open>padding\<close>. No statement of the program writes them, and a copy of a block (a return
  by value, \<^verbatim>\<open>push_back\<close>) carries them along with the members.
\<close>

record Block =
  index :: u32
  prevHash :: u32
  timestamp :: u64
  transaction :: Transaction
  nonce :: u32
  threshold :: u32
  padding :: u32

text \<open>
  The mutable state of the program: the global \<^verbatim>\<open>blockVector\<close> and the function-local
  \<^verbatim>\<open>static unsigned blockCounter\<close> of \<^verbatim>\<open>generateBlock\<close>.
\<close>

record Ledger =
  blockVector :: "Block list"
  blockCounter :: u32

text \<open>
  What \<^verbatim>\<open>generateBlock\<close> takes from its surroundings: the reading of the clock, and the
  indeterminate contents of what \<^verbatim>\<open>Block block;\<close> leaves unwritten: \<^verbatim>\<open>nonce\<close> and
  \<^verbatim>\<open>threshold\<close>, which hold whatever the memory held until \<^verbatim>\<open>hashBlock\<close> writes them, and
  the four padding bytes, which keep it.
\<close>

record Ambient =
  now :: u64
  stale_nonce :: u32
  stale_threshold :: u32
  stale_padding :: u32

section \<open>Digest and block image\<close>

text \<open>
  \<^verbatim>\<open>h = ( h ^ p[i] ) * 0x01000193\<close>, starting from \<^verbatim>\<open>0x811c9dc5\<close>, in 32-bit unsigned
  arithmetic.
\<close>

definition fnv_step :: "u32 \<Rightarrow> u8 \<Rightarrow> u32" where
  "fnv_step h b = (h XOR ucast b) * 0x01000193"

definition fnv_hash_1a_32 :: "u8 list \<Rightarrow> u32" where
  "fnv_hash_1a_32 key = foldl fnv_step 0x811c9dc5 key"

text \<open>
  \<^verbatim>\<open>hashBlock\<close> hashes the object representation of the block,
  \<^verbatim>\<open>fnv_hash_1a_32(&block, sizeof(Block))\<close>: 48 bytes on a little-endian LP64 machine.
  The image is the members in declaration order, each in little-endian byte order
  (index, prevHash, timestamp, the tag and the four slots of the transaction, nonce,
  threshold), followed by the four padding bytes. The tag is the enumerator's \<^verbatim>\<open>int\<close>
  value.
\<close>

definition bytes_u32 :: "u32 \<Rightarrow> u8 list" where
  "bytes_u32 w = [ucast w, ucast (drop_bit 8 w), ucast (drop_bit 16 w), ucast (drop_bit 24 w)]"

definition bytes_u64 :: "u64 \<Rightarrow> u8 list" where
  "bytes_u64 w = [ucast w, ucast (drop_bit 8 w), ucast (drop_bit 16 w), ucast (drop_bit 24 w),
     ucast (drop_bit 32 w), ucast (drop_bit 40 w), ucast (drop_bit 48 w), ucast (drop_bit 56 w)]"

fun tag_value :: "TransactionType \<Rightarrow> u32" where
  "tag_value INVALID = - 1"
| "tag_value GENERATE = 0"
| "tag_value TRANSFER = 1"
| "tag_value RECEIPT = 2"

definition transaction_image :: "Transaction \<Rightarrow> u8 list" where
  "transaction_image tx = bytes_u32 (tag_value (type tx)) @ bytes_u32 (slot0 tx)
     @ bytes_u32 (slot1 tx) @ bytes_u32 (slot2 tx) @ bytes_u32 (slot3 tx)"

definition block_prefix :: "Block \<Rightarrow> u8 list" where
  "block_prefix b = bytes_u32 (index b) @ bytes_u32 (prevHash b) @ bytes_u64 (timestamp b)
     @ transaction_image (transaction b)"

definition image :: "Block \<Rightarrow> u8 list" where
  "image b = block_prefix b @ bytes_u32 (nonce b) @ bytes_u32 (threshold b)
     @ bytes_u32 (padding b)"

definition digest :: "Block \<Rightarrow> u32" where
  "digest b = fnv_hash_1a_32 (image b)"

section \<open>Transaction builders\<close>

text \<open>\<^verbatim>\<open>return { TransactionType::INVALID }\<close>: only the tag is set; the slots are never read.\<close>

definition invalid_transaction :: Transaction where
  "invalid_transaction = \<lparr>type = INVALID, slot0 = 0, slot1 = 0, slot2 = 0, slot3 = 0\<rparr>"

definition word_of_bytes :: "u8 list \<Rightarrow> u32" where
  "word_of_bytes bs = foldr (\<lambda>b w. push_bit 8 w OR ucast b) bs 0"

text \<open>
  \<^verbatim>\<open>generateBlank\<close>: the tag is \<^verbatim>\<open>INVALID\<close> and \<^verbatim>\<open>blankSize = 16\<close> bytes of the argument are
  copied over the slots.
\<close>

definition generateBlank :: "u8 list \<Rightarrow> Transaction" where
  "generateBlank data = \<lparr>type = INVALID,
     slot0 = word_of_bytes (take 4 data),
     slot1 = word_of_bytes (take 4 (drop 4 data)),
     slot2 = word_of_bytes (take 4 (drop 8 data)),
     slot3 = word_of_bytes (take 4 (drop 12 data))\<rparr>"

text \<open>
  The loop that \<^verbatim>\<open>generateTransfer\<close> and \<^verbatim>\<open>generateReceipt\<close> both run: from \<^verbatim>\<open>rbegin()\<close> to
  \<^verbatim>\<open>rend()\<close>, stop at the first block that is a \<^verbatim>\<open>RECEIPT\<close> of the account and take its
  balance and its index; the defaults are \<^verbatim>\<open>balance = 0\<close> and \<^verbatim>\<open>prevReceipt = -1\<close>.
  The first argument is the vector in iteration order, tail first.
\<close>

fun scan_receipt :: "Block list \<Rightarrow> u32 \<Rightarrow> u32 \<times> u32" where
  "scan_receipt [] acct = (0, - 1)"
| "scan_receipt (b # bs) acct =
     (if type (transaction b) = RECEIPT \<and> account (transaction b) = acct
      then (balance (transaction b), index b)
      else scan_receipt bs acct)"

definition latest_receipt :: "Block list \<Rightarrow> u32 \<Rightarrow> u32 \<times> u32" where
  "latest_receipt chain acct = scan_receipt (rev chain) acct"

text \<open>
  The loop of \<^verbatim>\<open>generateReturn\<close>: tail first, stop at the first block whose \<^verbatim>\<open>index\<close>
  field is the wanted one and read its \<^verbatim>\<open>receipt.balance\<close>, whatever its tag; the
  default is \<^verbatim>\<open>balance = -1\<close>.
\<close>

fun scan_index :: "Block list \<Rightarrow> u32 \<Rightarrow> u32" where
  "scan_index [] i = - 1"
| "scan_index (b # bs) i =
     (if index b = i then balance (transaction b) else scan_index bs i)"

definition generateTransfer :: "Block list \<Rightarrow> u32 \<Rightarrow> u32 \<Rightarrow> u32 \<Rightarrow> Transaction" where
  "generateTransfer chain sender receiver amt =
     (if sender = receiver \<or> receiver = 0 then invalid_transaction
      else
        let (bal, prevSenderReceipt) =
              (if sender \<noteq> 0 then latest_receipt chain sender else (0, - 1))
        in if sender \<noteq> 0 \<and> bal < amt then invalid_transaction
           else \<lparr>type = (if sender = 0 then GENERATE else TRANSFER),
                 slot0 = sender, slot1 = receiver, slot2 = prevSenderReceipt, slot3 = amt\<rparr>)"

definition generateReceipt :: "Block list \<Rightarrow> Block \<Rightarrow> Transaction" where
  "generateReceipt chain transferBlock =
     (if type (transaction transferBlock) \<noteq> GENERATE
         \<and> type (transaction transferBlock) \<noteq> TRANSFER then invalid_transaction
      else
        let (bal, prevReceiverReceipt) =
              latest_receipt chain (receiverAccount (transaction transferBlock))
        in \<lparr>type = RECEIPT,
            slot0 = receiverAccount (transaction transferBlock),
            slot1 = prevReceiverReceipt,
            slot2 = index transferBlock,
            slot3 = bal + amount (transaction transferBlock)\<rparr>)"

definition generateReturn :: "Block list \<Rightarrow> Block \<Rightarrow> Block \<Rightarrow> Transaction" where
  "generateReturn chain transferBlock receiptBlock =
     (if type (transaction transferBlock) \<noteq> GENERATE
         \<and> type (transaction transferBlock) \<noteq> TRANSFER then invalid_transaction
      else if type (transaction receiptBlock) \<noteq> RECEIPT then invalid_transaction
      else if transfer_prevReceipt (transaction transferBlock) = - 1 then invalid_transaction
      else
        let bal = scan_index (rev chain) (transfer_prevReceipt (transaction transferBlock))
        in \<lparr>type = RECEIPT,
            slot0 = senderAccount (transaction transferBlock),
            slot1 = senderAccount (transaction transferBlock),
            slot2 = index receiptBlock,
            slot3 = bal - amount (transaction transferBlock)\<rparr>)"

section \<open>Blocks and mining\<close>

text \<open>
  \<^verbatim>\<open>generateBlock\<close> takes the next value of the counter as the index and advances the
  counter, on every call.
\<close>

definition generateBlock :: "Transaction \<Rightarrow> u32 \<Rightarrow> Ambient \<Rightarrow> u32 \<Rightarrow> Block \<times> u32" where
  "generateBlock tx prevH amb counter =
     (\<lparr>index = counter, prevHash = prevH, timestamp = now amb, transaction = tx,
       nonce = stale_nonce amb, threshold = stale_threshold amb,
       padding = stale_padding amb\<rparr>, counter + 1)"

text \<open>
  The loop of \<^verbatim>\<open>hashBlock\<close>: \<^verbatim>\<open>while (hash > threshold) { block.nonce = nonce++; hash = ...; }\<close>.
  The nonce is a 32-bit counter that wraps around, so the loop has no bound of its own:
  a run that never leaves it is the value \<open>None\<close>.
\<close>

partial_function (option) hashBlock_loop :: "Block \<Rightarrow> u32 \<Rightarrow> u32 \<Rightarrow> u32 \<Rightarrow> (u32 \<times> Block) option" where
  "hashBlock_loop block thr hash n =
     (if hash > thr
      then hashBlock_loop (block\<lparr>nonce := n\<rparr>) thr (digest (block\<lparr>nonce := n\<rparr>)) (n + 1)
      else Some (hash, block))"

declare hashBlock_loop.simps [code]

definition hashBlock :: "Block \<Rightarrow> u32 \<Rightarrow> (u32 \<times> Block) option" where
  "hashBlock block thr = hashBlock_loop (block\<lparr>threshold := thr\<rparr>) thr (- 1) 0"

text \<open>\<^verbatim>\<open>constexpr unsigned threshold = 1 << 20\<close>\<close>

definition threshold_const :: u32 where
  "threshold_const = push_bit 20 1"

section \<open>The ledger engine\<close>

text \<open>
  \<^verbatim>\<open>sendAmount\<close>. The result is \<open>None\<close> when the call does not return a status: a mining
  loop that never ends, or \<^verbatim>\<open>blockVector.back()\<close> on an empty vector, which has no defined
  behaviour. Otherwise it is the returned \<^verbatim>\<open>int\<close> and the state left behind.

  \<^verbatim>\<open>hashBlock(blockVector.back(), threshold)\<close> works on the stored tail through a
  reference, so the tail is replaced by its mined version before anything is decided.
  The two arguments of each \<^verbatim>\<open>generateBlock\<close> call may be evaluated in either order; the
  builders read only \<^verbatim>\<open>index\<close> and \<^verbatim>\<open>transaction\<close>, which mining leaves alone (lemmas
  \<open>latest_receipt_mined_tail\<close> and \<open>scan_index_mined_tail\<close> below), so one order is modelled.
  Every \<^verbatim>\<open>generateBlock\<close> call advances the counter, also when its block is dropped.
\<close>

definition sendAmount ::
  "u32 \<Rightarrow> u32 \<Rightarrow> u32 \<Rightarrow> Ambient \<Rightarrow> Ambient \<Rightarrow> Ambient \<Rightarrow> Ledger \<Rightarrow> (int \<times> Ledger) option" where
  "sendAmount sender receiver amt amb1 amb2 amb3 st =
     (if blockVector st = [] then None
      else
        case hashBlock (last (blockVector st)) threshold_const of
          None \<Rightarrow> None
        | Some (h0, tail) \<Rightarrow>
            let chain = butlast (blockVector st) @ [tail];
                (transfer, c1) =
                  generateBlock (generateTransfer chain sender receiver amt) h0 amb1 (blockCounter st)
            in if type (transaction transfer) = INVALID
               then Some (- 1, \<lparr>blockVector = chain, blockCounter = c1\<rparr>)
               else
                 case hashBlock transfer threshold_const of
                   None \<Rightarrow> None
                 | Some (h1, transfer') \<Rightarrow>
                     let (receipt, c2) = generateBlock (generateReceipt chain transfer) h1 amb2 c1
                     in if type (transaction receipt) = INVALID
                        then Some (- 2, \<lparr>blockVector = chain, blockCounter = c2\<rparr>)
                        else
                          case hashBlock receipt threshold_const of
                            None \<Rightarrow> None
                          | Some (h2, receipt') \<Rightarrow>
                              let (ret, c3) =
                                    generateBlock (generateReturn chain transfer' receipt) h2 amb3 c2;
                                  pushed = chain @ [transfer', receipt']
                              in Some (0, \<lparr>blockVector =
                                             (if type (transaction ret) \<noteq> INVALID
                                              then pushed @ [ret] else pushed),
                                           blockCounter = c3\<rparr>))"

text \<open>
  The first statement of \<^verbatim>\<open>main\<close>:
  \<^verbatim>\<open>blockVector.push_back(generateBlock(generateBlank(data), seed))\<close> on the empty vector
  with the counter at its initial value 0.
\<close>

definition genesis :: "u8 list \<Rightarrow> u32 \<Rightarrow> Ambient \<Rightarrow> Ledger" where
  "genesis data seed amb =
     (let (block, c) = generateBlock (generateBlank data) seed amb 0
      in \<lparr>blockVector = [block], blockCounter = c\<rparr>)"

text \<open>A call of \<^verbatim>\<open>sendAmount\<close> with what its three \<^verbatim>\<open>generateBlock\<close> calls find around them.\<close>

record Call =
  call_sender :: u32
  call_receiver :: u32
  call_amount :: u32
  amb_transfer :: Ambient
  amb_receipt :: Ambient
  amb_return :: Ambient

definition send :: "Call \<Rightarrow> Ledger \<Rightarrow> (int \<times> Ledger) option" where
  "send c st = sendAmount (call_sender c) (call_receiver c) (call_amount c)
     (amb_transfer c) (amb_receipt c) (amb_return c) st"

text \<open>A sequence of calls, one after the other; \<open>None\<close> when one of them does not return.\<close>

fun run :: "Call list \<Rightarrow> Ledger \<Rightarrow> Ledger option" where
  "run [] st = Some st"
| "run (c # cs) st = (case send c st of None \<Rightarrow> None | Some (rc, st') \<Rightarrow> run cs st')"

section \<open>Notions used in the statements\<close>

text \<open>Nonce \<open>n\<close> is accepted for block \<open>b\<close> at threshold \<open>t\<close>: the test of the mining loop.\<close>

definition accepts :: "Block \<Rightarrow> u32 \<Rightarrow> u32 \<Rightarrow> bool" where
  "accepts b t n = (digest (b\<lparr>threshold := t, nonce := n\<rparr>) \<le> t)"

text \<open>The block that a \<^verbatim>\<open>generateBlock\<close> call returns.\<close>

definition new_block :: "Transaction \<Rightarrow> u32 \<Rightarrow> Ambient \<Rightarrow> u32 \<Rightarrow> Block" where
  "new_block tx prevH amb counter = fst (generateBlock tx prevH amb counter)"

text \<open>Every block but the first carries the digest of the block before it.\<close>

fun linked :: "Block list \<Rightarrow> bool" where
  "linked [] = True"
| "linked [b] = True"
| "linked (a # b # bs) = (prevHash b = digest a \<and> linked (b # bs))"

text \<open>No block is a receipt of account 0.\<close>

definition no_receipt_for_zero :: "Block list \<Rightarrow> bool" where
  "no_receipt_for_zero chain =
     list_all (\<lambda>b. \<not> (type (transaction b) = RECEIPT \<and> account (transaction b) = 0)) chain"

text \<open>The indices grow along the chain and stay below the counter, read as numbers.\<close>

definition indices_ok :: "Ledger \<Rightarrow> bool" where
  "indices_ok st = (sorted_wrt (<) (map (\<lambda>b. unat (index b)) (blockVector st))
     \<and> list_all (\<lambda>b. unat (index b) < unat (blockCounter st)) (blockVector st))"

text \<open>A block as \<^verbatim>\<open>sendAmount\<close> leaves it after mining.\<close>

definition mined :: "Block \<Rightarrow> bool" where
  "mined b = (digest b \<le> threshold b \<and> threshold b = threshold_const)"

section \<open>Concrete runs\<close>

text \<open>
  The genesis block of \<^verbatim>\<open>main\<close>: the bytes of \<^verbatim>\<open>"Kayne Ruse 2021!"\<close> and the seed 42. The
  clock readings below are chosen so that each mining loop ends within three rounds
  (the genesis block at nonce 2, a transfer at nonce 1, a receipt at nonce 0), which
  keeps the evaluation short; the stale contents of unwritten fields and of the padding
  are taken to be 0.
\<close>

definition tick :: "u64 \<Rightarrow> Ambient" where
  "tick t = \<lparr>now = t, stale_nonce = 0, stale_threshold = 0, stale_padding = 0\<rparr>"

definition call :: "u32 \<Rightarrow> u32 \<Rightarrow> u32 \<Rightarrow> u64 \<Rightarrow> u64 \<Rightarrow> u64 \<Rightarrow> Call" where
  "call s r a t1 t2 t3 = \<lparr>call_sender = s, call_receiver = r, call_amount = a,
     amb_transfer = tick t1, amb_receipt = tick t2, amb_return = tick t3\<rparr>"

definition blk ::
  "u32 \<Rightarrow> u32 \<Rightarrow> u64 \<Rightarrow> TransactionType \<Rightarrow> u32 \<Rightarrow> u32 \<Rightarrow> u32 \<Rightarrow> u32 \<Rightarrow> u32 \<Rightarrow> u32 \<Rightarrow> Block" where
  "blk i ph ts ty w0 w1 w2 w3 n t = \<lparr>index = i, prevHash = ph, timestamp = ts,
     transaction = \<lparr>type = ty, slot0 = w0, slot1 = w1, slot2 = w2, slot3 = w3\<rparr>,
     nonce = n, threshold = t, padding = 0\<rparr>"

definition demo_data :: "u8 list" where
  "demo_data = [0x4B, 0x61, 0x79, 0x6E, 0x65, 0x20, 0x52, 0x75, 0x73, 0x65, 0x20, 0x32, 0x30, 0x32, 0x31, 0x21]"

definition demo_genesis :: Ledger where
  "demo_genesis = genesis demo_data 42 (tick 2404)"

text \<open>Four mints of 50 to account 1, as \<^verbatim>\<open>main\<close> starts.\<close>

definition mint_calls :: "Call list" where
  "mint_calls = [call 0 1 50 3140 5025 5026, call 0 1 50 7717 26165 26166,
     call 0 1 50 30777 34956 34957, call 0 1 50 36834 40512 40513]"

definition after_mints :: Ledger where
  "after_mints = \<lparr>blockVector =
    [blk 0 42 2404 INVALID 1853448523 1968316517 840983923 556872240 2 1048576,
     blk 1 740579 3140 GENERATE 0 1 4294967295 50 1 1048576,
     blk 2 643310 5025 RECEIPT 1 4294967295 1 50 0 1048576,
     blk 4 802132 7717 GENERATE 0 1 4294967295 50 1 1048576,
     blk 5 163311 26165 RECEIPT 1 2 4 100 0 1048576,
     blk 7 1022384 30777 GENERATE 0 1 4294967295 50 1 1048576,
     blk 8 60397 34956 RECEIPT 1 5 7 150 0 1048576,
     blk 10 819050 36834 GENERATE 0 1 4294967295 50 1 1048576,
     blk 11 979489 40512 RECEIPT 1 8 10 200 0 1048576],
   blockCounter = 13\<rparr>"

text \<open>
  A second run from the same genesis: account 2 is minted \<^verbatim>\<open>UINT_MAX\<close>, account 1 is
  minted 50, then account 1 sends 1 to account 2.
\<close>

definition first_call :: Call where
  "first_call = call 0 2 4294967295 8915 12634 12635"

definition after_first :: Ledger where
  "after_first = \<lparr>blockVector =
    [blk 0 42 2404 INVALID 1853448523 1968316517 840983923 556872240 2 1048576,
     blk 1 740579 8915 GENERATE 0 2 4294967295 4294967295 1 1048576,
     blk 2 928546 12634 RECEIPT 2 4294967295 1 4294967295 0 1048576],
   blockCounter = 4\<rparr>"

definition second_call :: Call where
  "second_call = call 0 1 50 14365 17031 17032"

definition after_second :: Ledger where
  "after_second = \<lparr>blockVector =
    [blk 0 42 2404 INVALID 1853448523 1968316517 840983923 556872240 2 1048576,
     blk 1 740579 8915 GENERATE 0 2 4294967295 4294967295 1 1048576,
     blk 2 928546 12634 RECEIPT 2 4294967295 1 4294967295 0 1048576,
     blk 4 306154 14365 GENERATE 0 1 4294967295 50 1 1048576,
     blk 5 23433 17031 RECEIPT 1 4294967295 4 50 0 1048576],
   blockCounter = 7\<rparr>"

definition pay_call :: Call where
  "pay_call = call 1 2 1 17914 22237 23112"

definition after_pay :: Ledger where
  "after_pay = \<lparr>blockVector =
    [blk 0 42 2404 INVALID 1853448523 1968316517 840983923 556872240 2 1048576,
     blk 1 740579 8915 GENERATE 0 2 4294967295 4294967295 1 1048576,
     blk 2 928546 12634 RECEIPT 2 4294967295 1 4294967295 0 1048576,
     blk 4 306154 14365 GENERATE 0 1 4294967295 50 1 1048576,
     blk 5 23433 17031 RECEIPT 1 4294967295 4 50 0 1048576,
     blk 7 544124 17914 TRANSFER 1 2 5 1 1 1048576,
     blk 8 907007 22237 RECEIPT 2 2 7 0 0 1048576,
     blk 9 737135 23112 RECEIPT 1 1 8 49 0 0],
   blockCounter = 10\<rparr>"

text \<open>After the first call of that run, a second mint of 1 to account 2.\<close>

definition wrap_call :: Call where
  "wrap_call = call 0 2 1 12998 15090 15091"

definition after_wrap :: Ledger where
  "after_wrap = \<lparr>blockVector =
    [blk 0 42 2404 INVALID 1853448523 1968316517 840983923 556872240 2 1048576,
     blk 1 740579 8915 GENERATE 0 2 4294967295 4294967295 1 1048576,
     blk 2 928546 12634 RECEIPT 2 4294967295 1 4294967295 0 1048576,
     blk 4 306154 12998 GENERATE 0 2 4294967295 1 1 1048576,
     blk 5 223980 15090 RECEIPT 2 2 4 0 0 1048576],
   blockCounter = 7\<rparr>"

text \<open>On the genesis block alone, a send from account 1 to itself.\<close>

definition after_reject :: Ledger where
  "after_reject = \<lparr>blockVector =
    [blk 0 42 2404 INVALID 1853448523 1968316517 840983923 556872240 2 1048576],
   blockCounter = 2\<rparr>"

text \<open>A block whose \<^verbatim>\<open>nonce\<close> field holds 7 before it is mined.\<close>

definition stale_block :: Block where
  "stale_block = blk 0 42 2404 INVALID 1853448523 1968316517 840983923 556872240 7 0"

text \<open>
  The genesis block of \<^verbatim>\<open>main\<close> when the clock reads 1 tick and the unwritten bytes hold 0.
\<close>

definition early_block :: Block where
  "early_block = blk 0 42 1 INVALID 1853448523 1968316517 840983923 556872240 0 0"

section \<open>The digests that a nonce can reach\<close>

text \<open>
  One round of the digest is \<open>h \<mapsto> (h XOR b) * p\<close> with \<open>p = 2\<^sup>2\<^sup>4 + 403\<close>, which is odd: the
  round can be undone, \<open>899433627\<close> being the inverse of \<open>p\<close> modulo \<open>2\<^sup>3\<^sup>2\<close>.
\<close>

definition unstep :: "u8 \<Rightarrow> u32 \<Rightarrow> u32" where
  "unstep b v = (v * 899433627) XOR ucast b"

text \<open>
  Write a 32-bit state as \<open>256 * m + u\<close>. The byte of a round changes \<open>u\<close> only, and the
  round sends the upper part \<open>m\<close> to \<open>hi_step m u\<close>, where \<open>u\<close> is the low byte after the
  exclusive or. Three rounds from \<open>m\<close> give \<open>hi3 (403\<^sup>3 * m) u0 u1 u2 s\<close> with
  \<open>s = 403\<^sup>2 * lowc u0 + 403 * lowc u1 + lowc u2\<close>; \<open>lowc u\<close> is below 403 and \<open>lowc_inv\<close> recovers
  \<open>u\<close> from it, so \<open>s\<close> determines the three bytes.
\<close>

definition lowc :: "int \<Rightarrow> int" where
  "lowc u = 403 * u div 256"

definition lowc_inv :: "int \<Rightarrow> int" where
  "lowc_inv d = (256 * d + 402) div 403"

definition hi_step :: "int \<Rightarrow> int \<Rightarrow> int" where
  "hi_step m u = (403 * m + 65536 * u + lowc u) mod 16777216"

definition hi3 :: "int \<Rightarrow> int \<Rightarrow> int \<Rightarrow> int \<Rightarrow> int \<Rightarrow> int" where
  "hi3 c u0 u1 u2 s = (c + 65536 * (162409 * u0 + 403 * u1 + u2) + s) mod 16777216"

text \<open>
  The upper part \<open>mu\<close> is missed by the three bytes that \<open>s = k + 65536 * j\<close> determines.
\<close>

definition cand_b :: "int \<Rightarrow> int \<Rightarrow> int \<Rightarrow> int \<Rightarrow> int \<Rightarrow> bool" where
  "cand_b c mu s d0 r = (hi3 c (lowc_inv d0) (lowc_inv (r div 403)) (lowc_inv (r mod 403)) s \<noteq> mu)"

definition cand_a :: "int \<Rightarrow> int \<Rightarrow> int \<Rightarrow> bool" where
  "cand_a c mu s = cand_b c mu s (s div 162409) (s mod 162409)"

definition cand :: "int \<Rightarrow> int \<Rightarrow> int \<Rightarrow> int \<Rightarrow> bool" where
  "cand c mu k j = cand_a c mu (k + 65536 * j)"

text \<open>\<open>P\<close> holds from \<open>lo\<close> to \<open>hi\<close>.\<close>

function all_range :: "(int \<Rightarrow> bool) \<Rightarrow> int \<Rightarrow> int \<Rightarrow> bool" where
  "all_range P lo hi = (if hi < lo then True else P lo \<and> all_range P (lo + 1) hi)"
  by pat_completeness auto

termination
  by (relation "measure (\<lambda>(P, lo, hi). nat (hi + 1 - lo))") auto

declare all_range.simps [simp del]

section \<open>The mining loop\<close>


lemma block_prefix_nonce [simp]: "block_prefix (b\<lparr>nonce := n\<rparr>) = block_prefix b"
  by (simp add: block_prefix_def)

lemma block_prefix_threshold [simp]: "block_prefix (b\<lparr>threshold := t\<rparr>) = block_prefix b"
  by (simp add: block_prefix_def)

lemma hashBlock_loop_stop: "hash \<le> thr \<Longrightarrow> hashBlock_loop b thr hash n = Some (hash, b)"
  by (subst hashBlock_loop.simps) (simp add: leD)

lemma hashBlock_loop_step:
  "thr < hash \<Longrightarrow> hashBlock_loop b thr hash n
     = hashBlock_loop (b\<lparr>nonce := n\<rparr>) thr (digest (b\<lparr>nonce := n\<rparr>)) (n + 1)"
  by (subst hashBlock_loop.simps) simp

lemma nonce_next: "(b\<lparr>nonce := n\<rparr>)\<lparr>nonce := n + 1 + of_nat j\<rparr> = b\<lparr>nonce := n + of_nat (Suc j)\<rparr>"
  by (simp add: add.assoc)

lemma hashBlock_loop_found:
  "thr < hash \<Longrightarrow> \<forall>j<k. thr < digest (b\<lparr>nonce := n + of_nat j\<rparr>)
     \<Longrightarrow> digest (b\<lparr>nonce := n + of_nat k\<rparr>) \<le> thr
     \<Longrightarrow> hashBlock_loop b thr hash n
           = Some (digest (b\<lparr>nonce := n + of_nat k\<rparr>), b\<lparr>nonce := n + of_nat k\<rparr>)"
proof (induction k arbitrary: b hash n)
  case 0
  then show ?case
    by (simp add: hashBlock_loop_step hashBlock_loop_stop)
next
  case (Suc k)
  have first: "thr < digest (b\<lparr>nonce := n\<rparr>)"
    using Suc.prems(2) [rule_format, of 0] by simp
  have rest: "\<forall>j<k. thr < digest (b\<lparr>nonce := n\<rparr>\<lparr>nonce := n + 1 + of_nat j\<rparr>)"
    unfolding nonce_next using Suc.prems(2) by auto
  have last: "digest (b\<lparr>nonce := n\<rparr>\<lparr>nonce := n + 1 + of_nat k\<rparr>) \<le> thr"
    unfolding nonce_next using Suc.prems(3) .
  have "hashBlock_loop b thr hash n
      = hashBlock_loop (b\<lparr>nonce := n\<rparr>) thr (digest (b\<lparr>nonce := n\<rparr>)) (n + 1)"
    using Suc.prems(1) by (rule hashBlock_loop_step)
  also have "\<dots> = Some (digest (b\<lparr>nonce := n\<rparr>\<lparr>nonce := n + 1 + of_nat k\<rparr>),
      b\<lparr>nonce := n\<rparr>\<lparr>nonce := n + 1 + of_nat k\<rparr>)"
    by (rule Suc.IH [OF first rest last])
  finally show ?case unfolding nonce_next .
qed

lemma hashBlock_loop_sound:
  "hashBlock_loop b thr hash n = Some y \<Longrightarrow>
     (hash \<le> thr \<and> y = (hash, b)) \<or>
     (thr < hash \<and> (\<exists>k. (\<forall>j<k. thr < digest (b\<lparr>nonce := n + of_nat j\<rparr>))
        \<and> digest (b\<lparr>nonce := n + of_nat k\<rparr>) \<le> thr
        \<and> y = (digest (b\<lparr>nonce := n + of_nat k\<rparr>), b\<lparr>nonce := n + of_nat k\<rparr>)))"
proof (induction b thr hash n y rule: hashBlock_loop.raw_induct [rotated 1, consumes 1])
  case (1 loop b thr hash n y)
  show ?case
  proof (cases "thr < hash")
    case False
    with 1(2) show ?thesis by simp
  next
    case True
    with 1(2) have rec: "loop (b\<lparr>nonce := n\<rparr>) thr (digest (b\<lparr>nonce := n\<rparr>)) (n + 1) = Some y"
      by simp
    from 1(1) [OF rec] show ?thesis
    proof
      assume a: "digest (b\<lparr>nonce := n\<rparr>) \<le> thr \<and> y = (digest (b\<lparr>nonce := n\<rparr>), b\<lparr>nonce := n\<rparr>)"
      then have "(\<forall>j<(0::nat). thr < digest (b\<lparr>nonce := n + of_nat j\<rparr>))
        \<and> digest (b\<lparr>nonce := n + of_nat (0::nat)\<rparr>) \<le> thr
        \<and> y = (digest (b\<lparr>nonce := n + of_nat (0::nat)\<rparr>), b\<lparr>nonce := n + of_nat (0::nat)\<rparr>)"
        by simp
      then show ?thesis using True by blast
    next
      assume "thr < digest (b\<lparr>nonce := n\<rparr>) \<and>
        (\<exists>k. (\<forall>j<k. thr < digest (b\<lparr>nonce := n\<rparr>\<lparr>nonce := n + 1 + of_nat j\<rparr>))
          \<and> digest (b\<lparr>nonce := n\<rparr>\<lparr>nonce := n + 1 + of_nat k\<rparr>) \<le> thr
          \<and> y = (digest (b\<lparr>nonce := n\<rparr>\<lparr>nonce := n + 1 + of_nat k\<rparr>),
                  b\<lparr>nonce := n\<rparr>\<lparr>nonce := n + 1 + of_nat k\<rparr>))"
      then obtain k where h0: "thr < digest (b\<lparr>nonce := n\<rparr>)"
        and hk: "\<forall>j<k. thr < digest (b\<lparr>nonce := n + of_nat (Suc j)\<rparr>)"
        and hl: "digest (b\<lparr>nonce := n + of_nat (Suc k)\<rparr>) \<le> thr"
        and hy: "y = (digest (b\<lparr>nonce := n + of_nat (Suc k)\<rparr>), b\<lparr>nonce := n + of_nat (Suc k)\<rparr>)"
        unfolding nonce_next by blast
      have "\<forall>j<Suc k. thr < digest (b\<lparr>nonce := n + of_nat j\<rparr>)"
      proof (intro allI impI)
        fix j assume "j < Suc k"
        show "thr < digest (b\<lparr>nonce := n + of_nat j\<rparr>)"
        proof (cases j)
          case 0 with h0 show ?thesis by simp
        next
          case (Suc j')
          with \<open>j < Suc k\<close> hk show ?thesis by blast
        qed
      qed
      with hl hy True show ?thesis by blast
    qed
  qed
qed



lemma hashBlock_first:
  assumes t: "t \<noteq> - 1" and acc: "accepts b t n" and first: "\<forall>m<n. \<not> accepts b t m"
  shows "hashBlock b t = Some (digest (b\<lparr>threshold := t, nonce := n\<rparr>), b\<lparr>threshold := t, nonce := n\<rparr>)"
proof -
  have lt: "t < - 1" using t by (simp add: word_order.not_eq_extremum)
  have a: "\<forall>j<unat n. t < digest (b\<lparr>threshold := t\<rparr>\<lparr>nonce := 0 + of_nat j\<rparr>)"
  proof (intro allI impI)
    fix j assume j: "j < unat n"
    moreover have "unat n < 2 ^ 32"
      using unsigned_less [of n] by simp
    ultimately have "(of_nat j :: u32) < n"
      by (simp add: word_less_nat_alt unat_of_nat)
    with first have "\<not> accepts b t (of_nat j)" by blast
    then show "t < digest (b\<lparr>threshold := t\<rparr>\<lparr>nonce := 0 + of_nat j\<rparr>)"
      by (simp add: accepts_def not_le)
  qed
  have b: "digest (b\<lparr>threshold := t\<rparr>\<lparr>nonce := 0 + of_nat (unat n)\<rparr>) \<le> t"
    using acc by (simp add: accepts_def)
  show ?thesis
    unfolding hashBlock_def using hashBlock_loop_found [OF lt a b] by (simp add:)
qed

lemma hashBlock_sound:
  assumes t: "t \<noteq> - 1" and r: "hashBlock b t = Some (h, b')"
  shows "b' = b\<lparr>threshold := t, nonce := nonce b'\<rparr> \<and> h = digest b' \<and> accepts b t (nonce b')
          \<and> (\<forall>m<nonce b'. \<not> accepts b t m)"
proof -
  have lt: "t < - 1" using t by (simp add: word_order.not_eq_extremum)
  from r [unfolded hashBlock_def] hashBlock_loop_sound [of "b\<lparr>threshold := t\<rparr>" t "- 1" 0 "(h, b')"] lt
  obtain k where k1: "\<forall>j<k. t < digest (b\<lparr>threshold := t\<rparr>\<lparr>nonce := of_nat j\<rparr>)"
    and k2: "digest (b\<lparr>threshold := t\<rparr>\<lparr>nonce := of_nat k\<rparr>) \<le> t"
    and k3: "h = digest (b\<lparr>threshold := t\<rparr>\<lparr>nonce := of_nat k\<rparr>)"
    and k4: "b' = b\<lparr>threshold := t\<rparr>\<lparr>nonce := of_nat k\<rparr>"
    by (auto simp: leD)
  have kb: "k < 2 ^ 32"
  proof (rule ccontr)
    assume "\<not> k < 2 ^ 32"
    moreover have "k mod 2 ^ 32 < (2 ^ 32 :: nat)"
      by simp
    ultimately have "k mod 2 ^ 32 < k"
      by linarith
    with k1 have "t < digest (b\<lparr>threshold := t\<rparr>\<lparr>nonce := of_nat (k mod 2 ^ 32)\<rparr>)" by blast
    moreover have "(of_nat (k mod 2 ^ 32) :: u32) = of_nat k"
      by (simp add: word_of_nat_eq_iff take_bit_eq_mod)
    ultimately show False using k2 by simp
  qed
  have un: "unat (of_nat k :: u32) = k"
    using kb by (simp add: unat_of_nat)
  have first: "\<forall>m<nonce b'. \<not> accepts b t m"
  proof (intro allI impI)
    fix m assume "m < nonce b'"
    then have "unat m < k" using k4 un by (simp add: word_less_nat_alt)
    with k1 have "t < digest (b\<lparr>threshold := t\<rparr>\<lparr>nonce := of_nat (unat m)\<rparr>)" by blast
    then show "\<not> accepts b t m" by (simp add: accepts_def not_le)
  qed
  show ?thesis using k2 k3 k4 first by (simp add: accepts_def)
qed

lemma hashBlock_max: "hashBlock b (- 1) = Some (- 1, b\<lparr>threshold := - 1\<rparr>)"
  by (simp add: hashBlock_def hashBlock_loop_stop)


section \<open>The steps of a send\<close>



lemma new_block_simps [simp]:
  "index (new_block tx h amb c) = c"
  "prevHash (new_block tx h amb c) = h"
  "timestamp (new_block tx h amb c) = now amb"
  "transaction (new_block tx h amb c) = tx"
  "nonce (new_block tx h amb c) = stale_nonce amb"
  "threshold (new_block tx h amb c) = stale_threshold amb"
  "padding (new_block tx h amb c) = stale_padding amb"
  by (simp_all add: new_block_def generateBlock_def)

lemma generateBlock_eq: "generateBlock tx h amb c = (new_block tx h amb c, c + 1)"
  by (simp add: new_block_def generateBlock_def)

lemma generateTransfer_type:
  "type (generateTransfer chain s r a) = INVALID
   \<or> (s = 0 \<and> type (generateTransfer chain s r a) = GENERATE)
   \<or> (s \<noteq> 0 \<and> type (generateTransfer chain s r a) = TRANSFER)"
  by (simp add: generateTransfer_def invalid_transaction_def Let_def split: prod.splits)

lemma generateReceipt_type:
  "type (transaction tb) \<noteq> INVALID \<Longrightarrow> type (transaction tb) \<noteq> RECEIPT
     \<Longrightarrow> type (generateReceipt chain tb) = RECEIPT"
  by (cases "type (transaction tb)") (simp_all add: generateReceipt_def split: prod.splits)

lemma sendAmount_cases:
  assumes "sendAmount s r a a1 a2 a3 st = Some (rc, st')"
  obtains (rejected) h0 tail where
      "blockVector st \<noteq> []"
      "hashBlock (last (blockVector st)) threshold_const = Some (h0, tail)"
      "type (generateTransfer (butlast (blockVector st) @ [tail]) s r a) = INVALID"
      "rc = - 1"
      "st' = \<lparr>blockVector = butlast (blockVector st) @ [tail], blockCounter = blockCounter st + 1\<rparr>"
  | (accepted) h0 tail h1 transfer' h2 receipt' where
      "blockVector st \<noteq> []"
      "hashBlock (last (blockVector st)) threshold_const = Some (h0, tail)"
      "type (generateTransfer (butlast (blockVector st) @ [tail]) s r a) \<noteq> INVALID"
      "hashBlock (new_block (generateTransfer (butlast (blockVector st) @ [tail]) s r a) h0 a1
          (blockCounter st)) threshold_const = Some (h1, transfer')"
      "hashBlock (new_block (generateReceipt (butlast (blockVector st) @ [tail])
            (new_block (generateTransfer (butlast (blockVector st) @ [tail]) s r a) h0 a1
               (blockCounter st))) h1 a2 (blockCounter st + 1)) threshold_const = Some (h2, receipt')"
      "rc = 0"
      "blockVector st' = butlast (blockVector st) @ [tail] @ [transfer', receipt']
          @ (let ret = new_block (generateReturn (butlast (blockVector st) @ [tail]) transfer'
                 (new_block (generateReceipt (butlast (blockVector st) @ [tail])
                    (new_block (generateTransfer (butlast (blockVector st) @ [tail]) s r a) h0 a1
                       (blockCounter st))) h1 a2 (blockCounter st + 1))) h2 a3 (blockCounter st + 2)
             in if type (transaction ret) \<noteq> INVALID then [ret] else [])"
      "blockCounter st' = blockCounter st + 3"
proof -
  from assms have ne: "blockVector st \<noteq> []"
    by (auto simp: sendAmount_def split: if_splits)
  from assms ne obtain h0 tail where
    m0: "hashBlock (last (blockVector st)) threshold_const = Some (h0, tail)"
    by (auto simp: sendAmount_def split: option.splits)
  let ?chain = "butlast (blockVector st) @ [tail]"
  let ?tx = "generateTransfer ?chain s r a"
  let ?tb = "new_block ?tx h0 a1 (blockCounter st)"
  show thesis
  proof (cases "type ?tx = INVALID")
    case True
    with assms ne m0 have "rc = - 1"
      and "st' = \<lparr>blockVector = ?chain, blockCounter = blockCounter st + 1\<rparr>"
      by (simp_all add: sendAmount_def generateBlock_eq Let_def)
    with ne m0 True show thesis by (rule rejected)
  next
    case False
    with generateTransfer_type [of ?chain s r a]
    have ty: "type ?tx \<noteq> INVALID" "type ?tx \<noteq> RECEIPT" by auto
    have rty: "type (generateReceipt ?chain ?tb) = RECEIPT"
      using ty by (simp add: generateReceipt_type)
    let ?rb = "new_block (generateReceipt ?chain ?tb) h1 a2 (blockCounter st + 1)"
    from assms ne m0 False obtain h1 transfer' where
      m1: "hashBlock ?tb threshold_const = Some (h1, transfer')"
      by (auto simp: sendAmount_def generateBlock_eq Let_def split: option.splits)
    from assms ne m0 False m1 rty obtain h2 receipt' where
      m2: "hashBlock (new_block (generateReceipt ?chain ?tb) h1 a2 (blockCounter st + 1))
             threshold_const = Some (h2, receipt')"
      by (auto simp: sendAmount_def generateBlock_eq Let_def split: option.splits)
    from assms ne m0 False m1 rty m2 have "rc = 0"
      and "blockVector st' = ?chain @ [transfer', receipt']
          @ (let ret = new_block (generateReturn ?chain transfer'
                 (new_block (generateReceipt ?chain ?tb) h1 a2 (blockCounter st + 1)))
                 h2 a3 (blockCounter st + 2)
             in if type (transaction ret) \<noteq> INVALID then [ret] else [])"
      and "blockCounter st' = blockCounter st + 3"
      by (auto simp: sendAmount_def generateBlock_eq Let_def add.assoc)
    with ne m0 False m1 m2 show thesis by (simp add: accepted)
  qed
qed



lemma threshold_const_not_max: "threshold_const \<noteq> - 1"
  by (simp add: threshold_const_def)

lemma latest_receipt_snoc:
  "latest_receipt (xs @ [b]) acct =
     (if type (transaction b) = RECEIPT \<and> account (transaction b) = acct
      then (balance (transaction b), index b) else latest_receipt xs acct)"
  by (simp add: latest_receipt_def)

lemma latest_receipt_Nil: "latest_receipt [] acct = (0, - 1)"
  by (simp add: latest_receipt_def)

lemma generateReceipt_cong:
  "transaction b = transaction b' \<Longrightarrow> index b = index b'
     \<Longrightarrow> generateReceipt chain b = generateReceipt chain b'"
  by (simp add: generateReceipt_def)

lemma generateReturn_cong:
  "transaction tb = transaction tb' \<Longrightarrow> transaction rb = transaction rb' \<Longrightarrow> index rb = index rb'
     \<Longrightarrow> generateReturn chain tb rb = generateReturn chain tb' rb'"
  by (simp add: generateReturn_def)

lemma generateTransfer_mined_tail:
  "generateTransfer (xs @ [x\<lparr>threshold := t, nonce := n\<rparr>]) s r a = generateTransfer (xs @ [x]) s r a"
  by (simp add: generateTransfer_def latest_receipt_snoc)

lemma generateReceipt_mined_tail:
  "generateReceipt (xs @ [x\<lparr>threshold := t, nonce := n\<rparr>]) tb = generateReceipt (xs @ [x]) tb"
  by (simp add: generateReceipt_def latest_receipt_snoc)

lemma generateReturn_mined_tail:
  "generateReturn (xs @ [x\<lparr>threshold := t, nonce := n\<rparr>]) tb rb = generateReturn (xs @ [x]) tb rb"
  by (simp add: generateReturn_def)

lemma hashBlock_mined:
  assumes "hashBlock b threshold_const = Some (h, b')"
  shows "b' = b\<lparr>threshold := threshold_const, nonce := nonce b'\<rparr>" and "h = digest b'"
    and "digest b' \<le> threshold_const"
proof -
  from hashBlock_sound [OF threshold_const_not_max assms]
  have 1: "b' = b\<lparr>threshold := threshold_const, nonce := nonce b'\<rparr>" and 2: "h = digest b'"
    and 3: "accepts b threshold_const (nonce b')" by blast+
  show "b' = b\<lparr>threshold := threshold_const, nonce := nonce b'\<rparr>" by (rule 1)
  show "h = digest b'" by (rule 2)
  from 3 have "digest (b\<lparr>threshold := threshold_const, nonce := nonce b'\<rparr>) \<le> threshold_const"
    by (simp add: accepts_def)
  with 1 show "digest b' \<le> threshold_const" by simp
qed

lemma sendAmount_elim:
  assumes "sendAmount s r a a1 a2 a3 st = Some (rc, st')"
  obtains (rejected) xs x tail where
      "blockVector st = xs @ [x]"
      "hashBlock x threshold_const = Some (digest tail, tail)"
      "tail = x\<lparr>threshold := threshold_const, nonce := nonce tail\<rparr>"
      "digest tail \<le> threshold_const"
      "type (generateTransfer (xs @ [x]) s r a) = INVALID"
      "rc = - 1"
      "st' = \<lparr>blockVector = xs @ [tail], blockCounter = blockCounter st + 1\<rparr>"
  | (accepted) xs x tail transfer' receipt' ret where
      "blockVector st = xs @ [x]"
      "hashBlock x threshold_const = Some (digest tail, tail)"
      "tail = x\<lparr>threshold := threshold_const, nonce := nonce tail\<rparr>"
      "digest tail \<le> threshold_const"
      "type (generateTransfer (xs @ [x]) s r a) \<noteq> INVALID"
      "transfer' = \<lparr>index = blockCounter st, prevHash = digest tail, timestamp = now a1,
          transaction = generateTransfer (xs @ [x]) s r a,
          nonce = nonce transfer', threshold = threshold_const, padding = stale_padding a1\<rparr>"
      "digest transfer' \<le> threshold_const"
      "receipt' = \<lparr>index = blockCounter st + 1, prevHash = digest transfer', timestamp = now a2,
          transaction = generateReceipt (xs @ [x]) transfer',
          nonce = nonce receipt', threshold = threshold_const, padding = stale_padding a2\<rparr>"
      "digest receipt' \<le> threshold_const"
      "ret = \<lparr>index = blockCounter st + 2, prevHash = digest receipt', timestamp = now a3,
          transaction = generateReturn (xs @ [x]) transfer' receipt',
          nonce = stale_nonce a3, threshold = stale_threshold a3, padding = stale_padding a3\<rparr>"
      "rc = 0"
      "blockVector st' = xs @ [tail, transfer', receipt']
          @ (if type (transaction ret) \<noteq> INVALID then [ret] else [])"
      "blockCounter st' = blockCounter st + 3"
using assms
proof (cases rule: sendAmount_cases)
  case (rejected h0 tail)
  from rejected(1) obtain xs x where sn: "blockVector st = xs @ [x]"
    by (metis append_butlast_last_id)
  note m = hashBlock_mined [OF rejected(2)]
  have t: "tail = x\<lparr>threshold := threshold_const, nonce := nonce tail\<rparr>"
    using m(1) sn by simp
  have inv: "type (generateTransfer (xs @ [x]) s r a) = INVALID"
    using rejected(3) sn by (subst (asm) t) (simp add: generateTransfer_mined_tail)
  have hb: "hashBlock x threshold_const = Some (digest tail, tail)"
    using rejected(2) sn m(2) by simp
  have st': "st' = \<lparr>blockVector = xs @ [tail], blockCounter = blockCounter st + 1\<rparr>"
    using rejected(5) sn by simp
  show ?thesis
    by (rule that(1) [OF sn hb t m(3) inv rejected(4) st'])
next
  case (accepted h0 tail h1 transfer' h2 receipt')
  from accepted(1) obtain xs x where sn: "blockVector st = xs @ [x]"
    by (metis append_butlast_last_id)
  note m0 = hashBlock_mined [OF accepted(2)]
  note m1 = hashBlock_mined [OF accepted(4)]
  note m2 = hashBlock_mined [OF accepted(5)]
  have t: "tail = x\<lparr>threshold := threshold_const, nonce := nonce tail\<rparr>"
    using m0(1) sn by simp
  have gt: "generateTransfer (butlast (blockVector st) @ [tail]) s r a = generateTransfer (xs @ [x]) s r a"
    using sn by (subst t) (simp add: generateTransfer_mined_tail)
  have grc: "\<And>tb. generateReceipt (butlast (blockVector st) @ [tail]) tb = generateReceipt (xs @ [x]) tb"
    using sn by (subst t) (simp add: generateReceipt_mined_tail)
  have grt: "\<And>tb rb. generateReturn (butlast (blockVector st) @ [tail]) tb rb = generateReturn (xs @ [x]) tb rb"
    using sn by (subst t) (simp add: generateReturn_mined_tail)
  have tr: "transfer' = \<lparr>index = blockCounter st, prevHash = digest tail, timestamp = now a1,
          transaction = generateTransfer (xs @ [x]) s r a,
          nonce = nonce transfer', threshold = threshold_const, padding = stale_padding a1\<rparr>"
    by (subst m1(1)) (simp add: gt m0(2) new_block_def generateBlock_def)
  have rtx: "generateReceipt (xs @ [x])
      (new_block (generateTransfer (xs @ [x]) s r a) h0 a1 (blockCounter st))
      = generateReceipt (xs @ [x]) transfer'"
    by (rule generateReceipt_cong) (subst tr, simp)+
  have rc: "receipt' = \<lparr>index = blockCounter st + 1, prevHash = digest transfer', timestamp = now a2,
          transaction = generateReceipt (xs @ [x]) transfer',
          nonce = nonce receipt', threshold = threshold_const, padding = stale_padding a2\<rparr>"
    by (subst m2(1), simp only: gt grc rtx) (simp add: m1(2) new_block_def generateBlock_def)
  define ret where "ret = \<lparr>index = blockCounter st + 2, prevHash = digest receipt', timestamp = now a3,
          transaction = generateReturn (xs @ [x]) transfer' receipt',
          nonce = stale_nonce a3, threshold = stale_threshold a3, padding = stale_padding a3\<rparr>"
  have retx: "generateReturn (xs @ [x]) transfer'
       (new_block (generateReceipt (xs @ [x]) transfer') h1 a2 (blockCounter st + 1))
     = generateReturn (xs @ [x]) transfer' receipt'"
    by (rule generateReturn_cong) (simp, (subst rc, simp)+)
  have ret_eq: "new_block (generateReturn (xs @ [x]) transfer' receipt') h2 a3 (blockCounter st + 2) = ret"
    by (simp add: ret_def new_block_def generateBlock_def m2(2))
  have bv: "blockVector st' = xs @ [tail, transfer', receipt']
          @ (if type (transaction ret) \<noteq> INVALID then [ret] else [])"
    using accepted(7) by (simp only: gt grc grt rtx retx ret_eq Let_def) (simp add: sn)
  have hb: "hashBlock x threshold_const = Some (digest tail, tail)"
    using accepted(2) sn m0(2) by simp
  have ninv: "type (generateTransfer (xs @ [x]) s r a) \<noteq> INVALID"
    using accepted(3) gt by simp
  show ?thesis
    by (rule that(2) [OF sn hb t m0(3) ninv tr m1(3) rc m2(3) ret_def accepted(6) bv accepted(8)])
qed




lemma run_induct [consumes 1, case_names start step]:
  assumes "run cs st = Some st'"
    and "P st"
    and "\<And>c s rc s'. P s \<Longrightarrow> send c s = Some (rc, s') \<Longrightarrow> P s'"
  shows "P st'"
  using assms(1,2)
proof (induction cs arbitrary: st)
  case Nil
  then show ?case by simp
next
  case (Cons c cs)
  from Cons.prems(1) obtain rc s1 where s: "send c st = Some (rc, s1)" and r: "run cs s1 = Some st'"
    by (auto split: option.splits)
  from assms(3) [OF Cons.prems(2) s] have "P s1" .
  with Cons.IH r show ?case by blast
qed

lemma run_count_induct [consumes 1, case_names start step]:
  assumes "run cs st = Some st'"
    and "P k st"
    and "\<And>n c s rc s'. P n s \<Longrightarrow> send c s = Some (rc, s') \<Longrightarrow> P (Suc n) s'"
  shows "P (k + length cs) st'"
  using assms(1,2)
proof (induction cs arbitrary: st k)
  case Nil
  then show ?case by simp
next
  case (Cons c cs)
  from Cons.prems(1) obtain rc s1 where s: "send c st = Some (rc, s1)" and r: "run cs s1 = Some st'"
    by (auto split: option.splits)
  from assms(3) [OF Cons.prems(2) s] have "P (Suc k) s1" .
  from Cons.IH [OF r this] show ?case by simp
qed

lemma genesis_eq:
  "genesis data seed amb = \<lparr>blockVector = [\<lparr>index = 0, prevHash = seed, timestamp = now amb,
      transaction = generateBlank data, nonce = stale_nonce amb, threshold = stale_threshold amb, padding = stale_padding amb\<rparr>],
     blockCounter = 1\<rparr>"
  by (simp add: genesis_def generateBlock_def)

lemma send_elim:
  assumes "send c st = Some (rc, st')"
  obtains (rejected) xs x tail where
      "blockVector st = xs @ [x]"
      "hashBlock x threshold_const = Some (digest tail, tail)"
      "tail = x\<lparr>threshold := threshold_const, nonce := nonce tail\<rparr>"
      "digest tail \<le> threshold_const"
      "type (generateTransfer (xs @ [x]) (call_sender c) (call_receiver c) (call_amount c)) = INVALID"
      "rc = - 1"
      "st' = \<lparr>blockVector = xs @ [tail], blockCounter = blockCounter st + 1\<rparr>"
  | (accepted) xs x tail transfer' receipt' ret where
      "blockVector st = xs @ [x]"
      "hashBlock x threshold_const = Some (digest tail, tail)"
      "tail = x\<lparr>threshold := threshold_const, nonce := nonce tail\<rparr>"
      "digest tail \<le> threshold_const"
      "type (generateTransfer (xs @ [x]) (call_sender c) (call_receiver c) (call_amount c)) \<noteq> INVALID"
      "transfer' = \<lparr>index = blockCounter st, prevHash = digest tail, timestamp = now (amb_transfer c),
          transaction = generateTransfer (xs @ [x]) (call_sender c) (call_receiver c) (call_amount c),
          nonce = nonce transfer', threshold = threshold_const, padding = stale_padding (amb_transfer c)\<rparr>"
      "digest transfer' \<le> threshold_const"
      "receipt' = \<lparr>index = blockCounter st + 1, prevHash = digest transfer', timestamp = now (amb_receipt c),
          transaction = generateReceipt (xs @ [x]) transfer',
          nonce = nonce receipt', threshold = threshold_const, padding = stale_padding (amb_receipt c)\<rparr>"
      "digest receipt' \<le> threshold_const"
      "ret = \<lparr>index = blockCounter st + 2, prevHash = digest receipt', timestamp = now (amb_return c),
          transaction = generateReturn (xs @ [x]) transfer' receipt',
          nonce = stale_nonce (amb_return c), threshold = stale_threshold (amb_return c), padding = stale_padding (amb_return c)\<rparr>"
      "rc = 0"
      "blockVector st' = xs @ [tail, transfer', receipt']
          @ (if type (transaction ret) \<noteq> INVALID then [ret] else [])"
      "blockCounter st' = blockCounter st + 3"
  using assms unfolding send_def by (rule sendAmount_elim)

subsection \<open>linkage\<close>

lemma linked_snoc:
  "linked (xs @ [b]) = (xs = [] \<or> (linked xs \<and> prevHash b = digest (last xs)))"
  by (induction xs rule: linked.induct) auto

lemma linked_nth:
  "linked xs \<Longrightarrow> 0 < i \<Longrightarrow> i < length xs \<Longrightarrow> prevHash (xs ! i) = digest (xs ! (i - 1))"
proof (induction xs arbitrary: i rule: linked.induct)
  case (3 a b bs)
  show ?case
  proof (cases "i = 1")
    case True
    with 3 show ?thesis by simp
  next
    case False
    with 3(3) obtain j where j: "i = Suc j" "0 < j" by (cases i) auto
    with 3 have "prevHash ((b # bs) ! j) = digest ((b # bs) ! (j - 1))" by simp
    with j show ?thesis by simp
  qed
qed simp_all

lemma linked_send:
  assumes "send c st = Some (rc, st')" and "linked (blockVector st)"
  shows "linked (blockVector st')"
  using assms(1)
proof (cases rule: send_elim)
  case (rejected xs x tail)
  have ph: "prevHash tail = prevHash x" by (subst rejected(3)) simp
  from assms(2) rejected(1) have "linked (xs @ [tail])"
    by (simp add: linked_snoc ph)
  with rejected(7) show ?thesis by simp
next
  case (accepted xs x tail transfer' receipt' ret)
  have ph: "prevHash tail = prevHash x" by (subst accepted(3)) simp
  from assms(2) accepted(1) have l0: "linked (xs @ [tail])"
    by (simp add: linked_snoc ph)
  have p1: "prevHash transfer' = digest tail" by (subst accepted(6)) simp
  have p2: "prevHash receipt' = digest transfer'" by (subst accepted(8)) simp
  have p3: "prevHash ret = digest receipt'" by (subst accepted(10)) simp
  have l1: "linked ((xs @ [tail]) @ [transfer'])"
    using l0 p1 by (subst linked_snoc) simp
  have l2: "linked (((xs @ [tail]) @ [transfer']) @ [receipt'])"
    using l1 p2 by (subst linked_snoc) simp
  have l3: "linked ((((xs @ [tail]) @ [transfer']) @ [receipt']) @ [ret])"
    using l2 p3 by (subst linked_snoc) simp
  show ?thesis using l2 l3 accepted(12) by simp
qed

lemma linked_run:
  "run cs (genesis data seed amb) = Some st \<Longrightarrow> linked (blockVector st)"
proof (induction rule: run_induct)
  case start
  show ?case by (simp add: genesis_eq)
next
  case (step c s rc s')
  then show ?case by (simp add: linked_send)
qed


subsection \<open>What generateTransfer returns\<close>

lemma generateTransfer_invalid_iff:
  "type (generateTransfer chain s r a) = INVALID
     \<longleftrightarrow> s = r \<or> r = 0 \<or> (s \<noteq> 0 \<and> fst (latest_receipt chain s) < a)"
  by (auto simp: generateTransfer_def invalid_transaction_def Let_def split: prod.splits)

lemma generateTransfer_valid:
  assumes "type (generateTransfer chain s r a) \<noteq> INVALID"
  shows "generateTransfer chain s r a =
           \<lparr>type = (if s = 0 then GENERATE else TRANSFER), slot0 = s, slot1 = r,
            slot2 = (if s = 0 then - 1 else snd (latest_receipt chain s)), slot3 = a\<rparr>"
    and "s \<noteq> r" and "r \<noteq> 0" and "s \<noteq> 0 \<Longrightarrow> a \<le> fst (latest_receipt chain s)"
  using assms
  by (auto simp: generateTransfer_def invalid_transaction_def Let_def not_less split: prod.splits if_splits)

lemma generateReceipt_valid:
  assumes "type (transaction tb) = GENERATE \<or> type (transaction tb) = TRANSFER"
  shows "generateReceipt chain tb =
     \<lparr>type = RECEIPT, slot0 = receiverAccount (transaction tb),
      slot1 = snd (latest_receipt chain (receiverAccount (transaction tb))),
      slot2 = index tb,
      slot3 = fst (latest_receipt chain (receiverAccount (transaction tb))) + amount (transaction tb)\<rparr>"
  using assms by (auto simp: generateReceipt_def split: prod.splits)

lemma generateReturn_invalid_iff:
  "type (generateReturn chain tb rb) = INVALID \<longleftrightarrow>
     (type (transaction tb) \<noteq> GENERATE \<and> type (transaction tb) \<noteq> TRANSFER)
     \<or> type (transaction rb) \<noteq> RECEIPT \<or> transfer_prevReceipt (transaction tb) = - 1"
  by (simp add: generateReturn_def invalid_transaction_def Let_def)

lemma generateReturn_valid:
  assumes "type (generateReturn chain tb rb) \<noteq> INVALID"
  shows "generateReturn chain tb rb =
     \<lparr>type = RECEIPT, slot0 = senderAccount (transaction tb), slot1 = senderAccount (transaction tb),
      slot2 = index rb,
      slot3 = scan_index (rev chain) (transfer_prevReceipt (transaction tb)) - amount (transaction tb)\<rparr>"
  using assms by (simp add: generateReturn_def invalid_transaction_def Let_def split: if_splits)

subsection \<open>No receipt for account 0\<close>


lemma scan_receipt_none:
  "list_all (\<lambda>b. \<not> (type (transaction b) = RECEIPT \<and> account (transaction b) = acct)) bs
     \<Longrightarrow> scan_receipt bs acct = (0, - 1)"
  by (induction bs) auto

lemma latest_receipt_none:
  "list_all (\<lambda>b. \<not> (type (transaction b) = RECEIPT \<and> account (transaction b) = acct)) chain
     \<Longrightarrow> latest_receipt chain acct = (0, - 1)"
  by (simp add: latest_receipt_def scan_receipt_none)

lemma no_receipt_for_zero_send:
  assumes "send c st = Some (rc, st')" and "no_receipt_for_zero (blockVector st)"
  shows "no_receipt_for_zero (blockVector st')"
  using assms(1)
proof (cases rule: send_elim)
  case (rejected xs x tail)
  have "transaction tail = transaction x" by (subst rejected(3)) simp
  with assms(2) rejected(1,7) show ?thesis by (simp add: no_receipt_for_zero_def)
next
  case (accepted xs x tail transfer' receipt' ret)
  let ?s = "call_sender c" and ?r = "call_receiver c" and ?a = "call_amount c"
  note v = generateTransfer_valid [OF accepted(5)]
  have t0: "transaction tail = transaction x" by (subst accepted(3)) simp
  have t1: "transaction transfer' = generateTransfer (xs @ [x]) ?s ?r ?a"
    by (subst accepted(6)) simp
  have ty1: "type (transaction transfer') = GENERATE \<or> type (transaction transfer') = TRANSFER"
    unfolding t1 by (simp add: v(1))
  have ty1': "type (transaction transfer') \<noteq> RECEIPT" using ty1 by auto
  have ra: "receiverAccount (transaction transfer') = ?r" unfolding t1 by (simp add: v(1))
  have t2: "transaction receipt' = generateReceipt (xs @ [x]) transfer'"
    by (subst accepted(8)) simp
  have a2: "account (transaction receipt') = ?r"
    unfolding t2 by (subst generateReceipt_valid [OF ty1]) (simp add: ra)
  have t3: "transaction ret = generateReturn (xs @ [x]) transfer' receipt'"
    by (subst accepted(10)) simp
  have a3: "type (transaction ret) \<noteq> INVALID \<Longrightarrow> account (transaction ret) \<noteq> 0"
  proof -
    assume r: "type (transaction ret) \<noteq> INVALID"
    then have "transfer_prevReceipt (transaction transfer') \<noteq> - 1"
      unfolding t3 by (simp add: generateReturn_invalid_iff)
    then have "?s \<noteq> 0" unfolding t1 by (simp add: v(1) split: if_splits)
    moreover have "account (transaction ret) = senderAccount (transaction transfer')"
      using r unfolding t3 by (subst generateReturn_valid) simp_all
    moreover have "senderAccount (transaction transfer') = ?s"
      unfolding t1 by (simp add: v(1))
    ultimately show ?thesis by simp
  qed
  show ?thesis
    using assms(2) accepted(1,12) t0 ty1' a2 v(3) a3
    by (auto simp: no_receipt_for_zero_def)
qed

lemma no_receipt_for_zero_run:
  "run cs (genesis data seed amb) = Some st \<Longrightarrow> no_receipt_for_zero (blockVector st)"
proof (induction rule: run_induct)
  case start
  show ?case by (simp add: genesis_eq no_receipt_for_zero_def generateBlank_def)
next
  case (step c s rc s')
  then show ?case by (simp add: no_receipt_for_zero_send)
qed








lemma unat_counter_plus:
  fixes c :: u32
  assumes "unat c + k < 2 ^ 32"
  shows "unat (c + of_nat k) = unat c + k"
  using assms by (simp add: unat_word_ariths unat_of_nat)

lemma indices_ok_send:
  assumes "send c st = Some (rc, st')" and "indices_ok st" and "unat (blockCounter st) + 3 < 2 ^ 32"
  shows "indices_ok st' \<and> unat (blockCounter st') \<le> unat (blockCounter st) + 3"
  using assms(1)
proof (cases rule: send_elim)
  case (rejected xs x tail)
  have i0: "index tail = index x" by (subst rejected(3)) simp
  have c1: "unat (blockCounter st + 1) = unat (blockCounter st) + 1"
    using unat_counter_plus [of "blockCounter st" 1] assms(3) by simp
  show ?thesis
    using assms(2) rejected(1,7) i0 c1
    by (auto simp: indices_ok_def sorted_wrt_append list_all_iff)
next
  case (accepted xs x tail transfer' receipt' ret)
  have i0: "index tail = index x" by (subst accepted(3)) simp
  have i1: "index transfer' = blockCounter st" by (subst accepted(6)) simp
  have i2: "index receipt' = blockCounter st + 1" by (subst accepted(8)) simp
  have i3: "index ret = blockCounter st + 2" by (subst accepted(10)) simp
  have c1: "unat (blockCounter st + 1) = unat (blockCounter st) + 1"
    using unat_counter_plus [of "blockCounter st" 1] assms(3) by simp
  have c2: "unat (blockCounter st + 2) = unat (blockCounter st) + 2"
    using unat_counter_plus [of "blockCounter st" 2] assms(3) by simp
  have c3: "unat (blockCounter st + 3) = unat (blockCounter st) + 3"
    using unat_counter_plus [of "blockCounter st" 3] assms(3) by simp
  show ?thesis
    using assms(2) accepted(1,12,13) i0 i1 i2 i3 c1 c2 c3
    by (auto simp: indices_ok_def sorted_wrt_append list_all_iff)
qed

lemma indices_ok_run:
  assumes "run cs (genesis data seed amb) = Some st"
  shows "3 * length cs + 1 < 2 ^ 32 \<longrightarrow>
           indices_ok st \<and> unat (blockCounter st) \<le> 3 * length cs + 1"
proof -
  let ?P = "\<lambda>n s. 3 * n + 1 < (2::nat) ^ 32 \<longrightarrow> indices_ok s \<and> unat (blockCounter s) \<le> 3 * n + 1"
  have "?P (0 + length cs) st"
    using assms
  proof (induction rule: run_count_induct [where P = ?P])
    case start
    show ?case by (simp add: genesis_eq indices_ok_def)
  next
    case (step n c s rc s')
    show ?case
    proof
      assume b: "3 * Suc n + 1 < (2::nat) ^ 32"
      with step(1) have ok: "indices_ok s" and cb: "unat (blockCounter s) \<le> 3 * n + 1" by simp_all
      from b cb have "unat (blockCounter s) + 3 < 2 ^ 32" by simp
      from indices_ok_send [OF step(2) ok this] cb
      show "indices_ok s' \<and> unat (blockCounter s') \<le> 3 * Suc n + 1" by simp
    qed
  qed
  then show ?thesis by simp
qed

lemma first_index_send:
  assumes "send c st = Some (rc, st')" and "blockVector st \<noteq> []"
  shows "blockVector st' \<noteq> [] \<and> index (hd (blockVector st')) = index (hd (blockVector st))"
  using assms(1)
proof (cases rule: send_elim)
  case (rejected xs x tail)
  have i0: "index tail = index x" by (subst rejected(3)) simp
  show ?thesis using rejected(1,7) i0 by (cases xs) simp_all
next
  case (accepted xs x tail transfer' receipt' ret)
  have i0: "index tail = index x" by (subst accepted(3)) simp
  show ?thesis using accepted(1,12) i0 by (cases xs) simp_all
qed

lemma first_index_run:
  "run cs (genesis data seed amb) = Some st
     \<Longrightarrow> blockVector st \<noteq> [] \<and> index (hd (blockVector st)) = 0"
proof (induction rule: run_induct)
  case start
  show ?case by (simp add: genesis_eq)
next
  case (step c s rc s')
  with first_index_send [of c s rc s'] show ?case by simp
qed

lemma sorted_wrt_less_ge_position:
  "sorted_wrt (<) (ns :: nat list) \<Longrightarrow> i < length ns \<Longrightarrow> i \<le> ns ! i"
proof (induction i)
  case 0
  then show ?case by simp
next
  case (Suc i)
  then have "ns ! i < ns ! Suc i" by (simp add: sorted_wrt_nth_less)
  with Suc show ?case by simp
qed





lemma mined_intro:
  "digest b \<le> threshold_const \<Longrightarrow> threshold b = threshold_const \<Longrightarrow> mined b"
  by (simp add: mined_def)

lemma work_send:
  assumes "send c st = Some (rc, st')" and "list_all mined (butlast (blockVector st))"
  shows "list_all mined (butlast (blockVector st'))
     \<and> (length (blockVector st') \<noteq> length (blockVector st) + 3 \<longrightarrow> mined (last (blockVector st')))"
  using assms(1)
proof (cases rule: send_elim)
  case (rejected xs x tail)
  have "threshold tail = threshold_const" by (subst rejected(3)) simp
  with rejected(4) have "mined tail" by (rule mined_intro)
  with assms(2) rejected(1,7) show ?thesis by simp
next
  case (accepted xs x tail transfer' receipt' ret)
  have "threshold tail = threshold_const" by (subst accepted(3)) simp
  with accepted(4) have m0: "mined tail" by (rule mined_intro)
  have "threshold transfer' = threshold_const" by (subst accepted(6)) simp
  with accepted(7) have m1: "mined transfer'" by (rule mined_intro)
  have "threshold receipt' = threshold_const" by (subst accepted(8)) simp
  with accepted(9) have m2: "mined receipt'" by (rule mined_intro)
  show ?thesis
    using assms(2) accepted(1,12) m0 m1 m2 by (simp add: butlast_append)
qed

lemma work_run:
  "run cs (genesis data seed amb) = Some st \<Longrightarrow> list_all mined (butlast (blockVector st))"
proof (induction rule: run_induct)
  case start
  show ?case by (simp add: genesis_eq)
next
  case (step c s rc s')
  with work_send [of c s rc s'] show ?case by simp
qed






subsection \<open>scans\<close>

lemma scan_receipt_cases:
  "(scan_receipt bs acct = (0, - 1)
      \<and> list_all (\<lambda>b. \<not> (type (transaction b) = RECEIPT \<and> account (transaction b) = acct)) bs)
   \<or> (\<exists>b\<in>set bs. type (transaction b) = RECEIPT \<and> account (transaction b) = acct
          \<and> scan_receipt bs acct = (balance (transaction b), index b))"
  by (induction bs) auto

lemma scan_index_distinct:
  "distinct (map index bs) \<Longrightarrow> b \<in> set bs \<Longrightarrow> scan_index bs (index b) = balance (transaction b)"
  by (induction bs) (auto simp: image_iff)

lemma scan_index_latest:
  assumes "distinct (map index chain)" and "snd (latest_receipt chain s) \<noteq> - 1"
  shows "scan_index (rev chain) (snd (latest_receipt chain s)) = fst (latest_receipt chain s)"
proof -
  from scan_receipt_cases [of "rev chain" s] assms(2)
  obtain b where b: "b \<in> set (rev chain)"
    and r: "scan_receipt (rev chain) s = (balance (transaction b), index b)"
    by (auto simp: latest_receipt_def)
  have "distinct (map index (rev chain))" using assms(1) by (simp add: rev_map [symmetric])
  from scan_index_distinct [OF this b] r show ?thesis by (simp add: latest_receipt_def)
qed

lemma latest_receipt_no_max_index:
  assumes "list_all (\<lambda>b. index b \<noteq> - 1) chain" and "snd (latest_receipt chain s) = - 1"
  shows "latest_receipt chain s = (0, - 1)"
proof -
  from scan_receipt_cases [of "rev chain" s]
  show ?thesis
  proof
    assume "scan_receipt (rev chain) s = (0, - 1)
      \<and> list_all (\<lambda>b. \<not> (type (transaction b) = RECEIPT \<and> account (transaction b) = s)) (rev chain)"
    then show ?thesis by (simp add: latest_receipt_def)
  next
    assume "\<exists>b\<in>set (rev chain). type (transaction b) = RECEIPT \<and> account (transaction b) = s
          \<and> scan_receipt (rev chain) s = (balance (transaction b), index b)"
    then obtain b where "b \<in> set chain" and "scan_receipt (rev chain) s = (balance (transaction b), index b)"
      by auto
    with assms show ?thesis by (auto simp: latest_receipt_def list_all_iff)
  qed
qed

lemma sorted_less_distinct: "sorted_wrt (<) (ns :: nat list) \<Longrightarrow> distinct ns"
  by (induction ns) auto

lemma distinct_map_inner: "distinct (map (\<lambda>b. f (g b)) xs) \<Longrightarrow> distinct (map g xs)"
  by (induction xs) auto

lemma indices_ok_distinct:
  assumes "indices_ok st"
  shows "distinct (map index (blockVector st))" and "list_all (\<lambda>b. index b \<noteq> - 1) (blockVector st)"
proof -
  from assms have s: "sorted_wrt (<) (map (\<lambda>b. unat (index b)) (blockVector st))"
    and b: "list_all (\<lambda>b. unat (index b) < unat (blockCounter st)) (blockVector st)"
    by (simp_all add: indices_ok_def)
  from s have "distinct (map (\<lambda>b. unat (index b)) (blockVector st))"
    by (rule sorted_less_distinct)
  then show "distinct (map index (blockVector st))"
    by (rule distinct_map_inner)
  show "list_all (\<lambda>b. index b \<noteq> - 1) (blockVector st)"
    unfolding list_all_iff
  proof
    fix x assume "x \<in> set (blockVector st)"
    with b have "unat (index x) < unat (blockCounter st)" by (simp add: list_all_iff)
    moreover have "unat (blockCounter st) \<le> unat (- 1 :: u32)"
      by (simp add: word_le_nat_alt [symmetric])
    ultimately show "index x \<noteq> - 1" by auto
  qed
qed



lemma latest_receipt_tail:
  "latest_receipt (xs @ [x\<lparr>threshold := t, nonce := n\<rparr>]) acct = latest_receipt (xs @ [x]) acct"
  by (simp add: latest_receipt_def)

lemma latest_receipt_snoc3:
  "latest_receipt (xs @ [a, b, c]) acct =
     (if type (transaction c) = RECEIPT \<and> account (transaction c) = acct
      then (balance (transaction c), index c)
      else if type (transaction b) = RECEIPT \<and> account (transaction b) = acct
      then (balance (transaction b), index b)
      else latest_receipt (xs @ [a]) acct)"
  by (simp add: latest_receipt_def)

lemma latest_receipt_snoc4:
  "latest_receipt (xs @ [a, b, c, d]) acct =
     (if type (transaction d) = RECEIPT \<and> account (transaction d) = acct
      then (balance (transaction d), index d)
      else latest_receipt (xs @ [a, b, c]) acct)"
  by (simp add: latest_receipt_def)

text \<open>The balances after an accepted send, in terms of the scans before it.\<close>

lemma accepted_balances:
  assumes "sendAmount s r a a1 a2 a3 st = Some (0, st')"
  shows "fst (latest_receipt (blockVector st') r) = fst (latest_receipt (blockVector st) r) + a"
    and "s = 0 \<or> snd (latest_receipt (blockVector st) s) = - 1 \<Longrightarrow>
           length (blockVector st') = length (blockVector st) + 2
           \<and> latest_receipt (blockVector st') s = latest_receipt (blockVector st) s"
    and "s \<noteq> 0 \<Longrightarrow> snd (latest_receipt (blockVector st) s) \<noteq> - 1 \<Longrightarrow>
           length (blockVector st') = length (blockVector st) + 3
           \<and> fst (latest_receipt (blockVector st') s)
               = scan_index (rev (blockVector st)) (snd (latest_receipt (blockVector st) s)) - a"
    and "s \<noteq> 0 \<Longrightarrow> a \<le> fst (latest_receipt (blockVector st) s)"
    and "s \<noteq> r" and "r \<noteq> 0"
proof -
  from assms obtain xs x tail transfer' receipt' ret where
    sn: "blockVector st = xs @ [x]"
    and tl: "tail = x\<lparr>threshold := threshold_const, nonce := nonce tail\<rparr>"
    and ok: "type (generateTransfer (xs @ [x]) s r a) \<noteq> INVALID"
    and tr: "transfer' = \<lparr>index = blockCounter st, prevHash = digest tail, timestamp = now a1,
          transaction = generateTransfer (xs @ [x]) s r a,
          nonce = nonce transfer', threshold = threshold_const, padding = stale_padding a1\<rparr>"
    and rc: "receipt' = \<lparr>index = blockCounter st + 1, prevHash = digest transfer', timestamp = now a2,
          transaction = generateReceipt (xs @ [x]) transfer',
          nonce = nonce receipt', threshold = threshold_const, padding = stale_padding a2\<rparr>"
    and rt: "ret = \<lparr>index = blockCounter st + 2, prevHash = digest receipt', timestamp = now a3,
          transaction = generateReturn (xs @ [x]) transfer' receipt',
          nonce = stale_nonce a3, threshold = stale_threshold a3, padding = stale_padding a3\<rparr>"
    and bv: "blockVector st' = xs @ [tail, transfer', receipt']
          @ (if type (transaction ret) \<noteq> INVALID then [ret] else [])"
    by (cases rule: sendAmount_elim) simp_all
  note v = generateTransfer_valid [OF ok]
  show "s \<noteq> r" and "r \<noteq> 0" by (rule v(2), rule v(3))
  show "s \<noteq> 0 \<Longrightarrow> a \<le> fst (latest_receipt (blockVector st) s)"
    using v(4) sn by simp
  have t1: "transaction transfer' = generateTransfer (xs @ [x]) s r a"
    by (subst tr) simp
  have ty1: "type (transaction transfer') = GENERATE \<or> type (transaction transfer') = TRANSFER"
    unfolding t1 by (simp add: v(1))
  have ty1': "type (transaction transfer') \<noteq> RECEIPT" using ty1 by auto
  have f1: "receiverAccount (transaction transfer') = r" "senderAccount (transaction transfer') = s"
    "amount (transaction transfer') = a"
    "transfer_prevReceipt (transaction transfer') = (if s = 0 then - 1 else snd (latest_receipt (xs @ [x]) s))"
    unfolding t1 by (simp_all add: v(1))
  have t2: "transaction receipt' = \<lparr>type = RECEIPT, slot0 = r,
      slot1 = snd (latest_receipt (xs @ [x]) r), slot2 = index transfer',
      slot3 = fst (latest_receipt (xs @ [x]) r) + a\<rparr>"
    by (subst rc) (simp add: generateReceipt_valid [OF ty1] f1)
  have t3: "transaction ret = generateReturn (xs @ [x]) transfer' receipt'"
    by (subst rt) simp
  have inv3: "type (transaction ret) = INVALID \<longleftrightarrow> s = 0 \<or> snd (latest_receipt (xs @ [x]) s) = - 1"
    unfolding t3 using ty1 by (auto simp: generateReturn_invalid_iff t2 f1)
  have lt: "\<And>acct. latest_receipt (xs @ [tail]) acct = latest_receipt (xs @ [x]) acct"
    by (subst tl) (rule latest_receipt_tail)
  have two: "\<And>acct. latest_receipt (xs @ [tail, transfer', receipt']) acct =
      (if r = acct then (fst (latest_receipt (xs @ [x]) r) + a, index receipt')
       else latest_receipt (xs @ [x]) acct)"
    using ty1' by (simp add: latest_receipt_snoc3 t2 lt)
  have three: "type (transaction ret) \<noteq> INVALID \<Longrightarrow>
      latest_receipt (xs @ [tail, transfer', receipt', ret]) acct =
      (if s = acct then (scan_index (rev (xs @ [x])) (snd (latest_receipt (xs @ [x]) s)) - a, index ret)
       else latest_receipt (xs @ [tail, transfer', receipt']) acct)" for acct
  proof -
    assume ni: "type (transaction ret) \<noteq> INVALID"
    then have s0: "s \<noteq> 0" using inv3 by auto
    have "transaction ret = \<lparr>type = RECEIPT, slot0 = s, slot1 = s, slot2 = index receipt',
        slot3 = scan_index (rev (xs @ [x])) (snd (latest_receipt (xs @ [x]) s)) - a\<rparr>"
      using ni unfolding t3 by (simp add: generateReturn_valid f1 s0)
    then show ?thesis by (simp add: latest_receipt_snoc4)
  qed
  show "fst (latest_receipt (blockVector st') r) = fst (latest_receipt (blockVector st) r) + a"
    using v(2) by (simp add: bv sn two three)
  show "s = 0 \<or> snd (latest_receipt (blockVector st) s) = - 1 \<Longrightarrow>
           length (blockVector st') = length (blockVector st) + 2
           \<and> latest_receipt (blockVector st') s = latest_receipt (blockVector st) s"
    using v(2) inv3 by (simp add: bv sn two)
  show "s \<noteq> 0 \<Longrightarrow> snd (latest_receipt (blockVector st) s) \<noteq> - 1 \<Longrightarrow>
           length (blockVector st') = length (blockVector st) + 3
           \<and> fst (latest_receipt (blockVector st') s)
               = scan_index (rev (blockVector st)) (snd (latest_receipt (blockVector st) s)) - a"
    using inv3 by (simp add: bv sn three)
qed



lemma mint_blocks:
  assumes "sendAmount 0 r a a1 a2 a3 st = Some (0, st')"
  shows "length (blockVector st') = length (blockVector st) + 2"
    and "take (length (blockVector st) - 1) (blockVector st') = butlast (blockVector st)"
    and "blockVector st' ! (length (blockVector st) - 1)
           = (last (blockVector st))\<lparr>threshold := threshold_const,
                nonce := nonce (blockVector st' ! (length (blockVector st) - 1))\<rparr>"
    and "index (blockVector st' ! length (blockVector st)) = blockCounter st"
    and "transaction (blockVector st' ! length (blockVector st))
           = \<lparr>type = GENERATE, slot0 = 0, slot1 = r, slot2 = - 1, slot3 = a\<rparr>"
    and "transaction (blockVector st' ! (length (blockVector st) + 1))
           = \<lparr>type = RECEIPT, slot0 = r, slot1 = snd (latest_receipt (blockVector st) r),
              slot2 = blockCounter st, slot3 = fst (latest_receipt (blockVector st) r) + a\<rparr>"
proof -
  from assms obtain xs x tail transfer' receipt' ret where
    sn: "blockVector st = xs @ [x]"
    and tl: "tail = x\<lparr>threshold := threshold_const, nonce := nonce tail\<rparr>"
    and ok: "type (generateTransfer (xs @ [x]) 0 r a) \<noteq> INVALID"
    and tr: "transfer' = \<lparr>index = blockCounter st, prevHash = digest tail, timestamp = now a1,
          transaction = generateTransfer (xs @ [x]) 0 r a,
          nonce = nonce transfer', threshold = threshold_const, padding = stale_padding a1\<rparr>"
    and rc: "receipt' = \<lparr>index = blockCounter st + 1, prevHash = digest transfer', timestamp = now a2,
          transaction = generateReceipt (xs @ [x]) transfer',
          nonce = nonce receipt', threshold = threshold_const, padding = stale_padding a2\<rparr>"
    and rt: "ret = \<lparr>index = blockCounter st + 2, prevHash = digest receipt', timestamp = now a3,
          transaction = generateReturn (xs @ [x]) transfer' receipt',
          nonce = stale_nonce a3, threshold = stale_threshold a3, padding = stale_padding a3\<rparr>"
    and bv: "blockVector st' = xs @ [tail, transfer', receipt']
          @ (if type (transaction ret) \<noteq> INVALID then [ret] else [])"
    by (cases rule: sendAmount_elim) simp_all
  have gt: "generateTransfer (xs @ [x]) 0 r a
      = \<lparr>type = GENERATE, slot0 = 0, slot1 = r, slot2 = - 1, slot3 = a\<rparr>"
    using generateTransfer_valid(1) [OF ok] by simp
  have tr': "transfer' = \<lparr>index = blockCounter st, prevHash = digest tail, timestamp = now a1,
          transaction = \<lparr>type = GENERATE, slot0 = 0, slot1 = r, slot2 = - 1, slot3 = a\<rparr>,
          nonce = nonce transfer', threshold = threshold_const, padding = stale_padding a1\<rparr>"
    by (subst tr) (simp add: gt)
  have gr: "generateReceipt (xs @ [x]) transfer' = \<lparr>type = RECEIPT, slot0 = r,
      slot1 = snd (latest_receipt (xs @ [x]) r), slot2 = blockCounter st,
      slot3 = fst (latest_receipt (xs @ [x]) r) + a\<rparr>"
    by (subst generateReceipt_valid) (subst tr', simp)+
  have rc': "receipt' = \<lparr>index = blockCounter st + 1, prevHash = digest transfer', timestamp = now a2,
          transaction = \<lparr>type = RECEIPT, slot0 = r,
            slot1 = snd (latest_receipt (xs @ [x]) r), slot2 = blockCounter st,
            slot3 = fst (latest_receipt (xs @ [x]) r) + a\<rparr>,
          nonce = nonce receipt', threshold = threshold_const, padding = stale_padding a2\<rparr>"
    by (subst rc) (simp add: gr)
  have "transfer_prevReceipt (transaction transfer') = - 1" by (subst tr') simp
  then have "type (transaction ret) = INVALID"
    by (subst rt) (simp add: generateReturn_invalid_iff)
  with bv have bv': "blockVector st' = xs @ [tail, transfer', receipt']" by simp
  have i1: "index transfer' = blockCounter st" by (subst tr') simp
  have t1: "transaction transfer' = \<lparr>type = GENERATE, slot0 = 0, slot1 = r, slot2 = - 1, slot3 = a\<rparr>"
    by (subst tr') simp
  have t2: "transaction receipt' = \<lparr>type = RECEIPT, slot0 = r,
            slot1 = snd (latest_receipt (xs @ [x]) r), slot2 = blockCounter st,
            slot3 = fst (latest_receipt (xs @ [x]) r) + a\<rparr>"
    by (subst rc') simp
  show "length (blockVector st') = length (blockVector st) + 2"
    by (simp add: bv' sn)
  show "take (length (blockVector st) - 1) (blockVector st') = butlast (blockVector st)"
    by (simp add: bv' sn)
  show "blockVector st' ! (length (blockVector st) - 1)
           = (last (blockVector st))\<lparr>threshold := threshold_const,
                nonce := nonce (blockVector st' ! (length (blockVector st) - 1))\<rparr>"
    using tl by (simp add: bv' sn)
  show "index (blockVector st' ! length (blockVector st)) = blockCounter st"
    by (simp add: bv' sn nth_append i1)
  show "transaction (blockVector st' ! length (blockVector st))
           = \<lparr>type = GENERATE, slot0 = 0, slot1 = r, slot2 = - 1, slot3 = a\<rparr>"
    by (simp add: bv' sn nth_append t1)
  show "transaction (blockVector st' ! (length (blockVector st) + 1))
           = \<lparr>type = RECEIPT, slot0 = r, slot1 = snd (latest_receipt (blockVector st) r),
              slot2 = blockCounter st, slot3 = fst (latest_receipt (blockVector st) r) + a\<rparr>"
    by (simp add: bv' sn nth_append t2)
qed

lemma mint_step:
  assumes "send c st = Some (rc, st')" and "call_sender c = 0" and "call_receiver c \<noteq> 0"
  shows "rc = 0" and "length (blockVector st') = length (blockVector st) + 2"
    and "fst (latest_receipt (blockVector st') (call_receiver c))
           = fst (latest_receipt (blockVector st) (call_receiver c)) + call_amount c"
proof -
  show rc: "rc = 0"
    using assms(1)
  proof (cases rule: send_elim)
    case (rejected xs x tail)
    with assms(2,3) show ?thesis by (simp add: generateTransfer_invalid_iff)
  next
    case (accepted xs x tail transfer' receipt' ret)
    then show ?thesis by simp
  qed
  from assms(1) rc assms(2)
  have s: "sendAmount 0 (call_receiver c) (call_amount c) (amb_transfer c) (amb_receipt c)
      (amb_return c) st = Some (0, st')"
    by (simp add: send_def)
  show "length (blockVector st') = length (blockVector st) + 2"
    using accepted_balances(2) [OF s] by simp
  show "fst (latest_receipt (blockVector st') (call_receiver c))
           = fst (latest_receipt (blockVector st) (call_receiver c)) + call_amount c"
    by (rule accepted_balances(1) [OF s])
qed

lemma four_mints:
  assumes "run [c1, c2, c3, c4] (genesis data seed amb) = Some st"
    and "list_all (\<lambda>c. call_sender c = 0 \<and> call_receiver c = 1 \<and> call_amount c = 50) [c1, c2, c3, c4]"
  shows "length (blockVector st) = 9 \<and> fst (latest_receipt (blockVector st) 1) = 200"
proof -
  let ?g = "genesis data seed amb"
  from assms(1) obtain r1 s1 r2 s2 r3 s3 r4 where
    1: "send c1 ?g = Some (r1, s1)" and 2: "send c2 s1 = Some (r2, s2)"
    and 3: "send c3 s2 = Some (r3, s3)" and 4: "send c4 s3 = Some (r4, st)"
    by (auto split: option.splits)
  have g: "length (blockVector ?g) = 1" "fst (latest_receipt (blockVector ?g) 1) = 0"
    by (simp_all add: genesis_eq latest_receipt_def generateBlank_def)
  from assms(2) have c: "call_sender c1 = 0" "call_receiver c1 = 1" "call_amount c1 = 50"
    "call_sender c2 = 0" "call_receiver c2 = 1" "call_amount c2 = 50"
    "call_sender c3 = 0" "call_receiver c3 = 1" "call_amount c3 = 50"
    "call_sender c4 = 0" "call_receiver c4 = 1" "call_amount c4 = 50"
    by simp_all
  from mint_step(2,3) [OF 1] c g
  have a1: "length (blockVector s1) = 3" "fst (latest_receipt (blockVector s1) 1) = 50" by simp_all
  from mint_step(2,3) [OF 2] c a1
  have a2: "length (blockVector s2) = 5" "fst (latest_receipt (blockVector s2) 1) = 100" by simp_all
  from mint_step(2,3) [OF 3] c a2
  have a3: "length (blockVector s3) = 7" "fst (latest_receipt (blockVector s3) 1) = 150" by simp_all
  from mint_step(2,3) [OF 4] c a3
  show ?thesis by simp
qed


section \<open>The concrete runs, evaluated\<close>

lemma run_snoc:
  "run cs st = Some s1 \<Longrightarrow> send c s1 = Some (rc, s2) \<Longrightarrow> run (cs @ [c]) st = Some s2"
  by (induction cs arbitrary: st) (auto split: option.splits)

lemma run_mints: "run mint_calls (genesis demo_data 42 (tick 2404)) = Some after_mints"
  by code_simp

lemma send_first: "send first_call (genesis demo_data 42 (tick 2404)) = Some (0, after_first)"
  by code_simp

lemma send_second: "send second_call after_first = Some (0, after_second)"
  by code_simp

lemma send_pay: "send pay_call after_second = Some (0, after_pay)"
  by code_simp

lemma send_wrap: "send wrap_call after_first = Some (0, after_wrap)"
  by code_simp

lemma send_reject:
  "sendAmount 1 1 50 (tick 2405) (tick 2406) (tick 2407) (genesis demo_data 42 (tick 2404))
     = Some (- 1, after_reject)"
  by code_simp

lemma run_first: "run [first_call] (genesis demo_data 42 (tick 2404)) = Some after_first"
  using run_snoc [of "[]", OF _ send_first] by simp

lemma run_second:
  "run [first_call, second_call] (genesis demo_data 42 (tick 2404)) = Some after_second"
  using run_snoc [OF run_first send_second] by simp

lemma run_pay:
  "run [first_call, second_call, pay_call] (genesis demo_data 42 (tick 2404)) = Some after_pay"
  using run_snoc [OF run_second send_pay] by simp

lemma sendAmount_second:
  "sendAmount 0 1 50 (tick 14365) (tick 17031) (tick 17032) after_first = Some (0, after_second)"
  using send_second by (simp add: send_def second_call_def call_def)

lemma sendAmount_pay:
  "sendAmount 1 2 1 (tick 17914) (tick 22237) (tick 23112) after_second = Some (0, after_pay)"
  using send_pay by (simp add: send_def pay_call_def call_def)

lemma sendAmount_wrap:
  "sendAmount 0 2 1 (tick 12998) (tick 15090) (tick 15091) after_first = Some (0, after_wrap)"
  using send_wrap by (simp add: send_def wrap_call_def call_def)

lemma balances_second:
  "latest_receipt (blockVector after_second) 1 = (50, 5)"
  "latest_receipt (blockVector after_second) 2 = (4294967295, 2)"
  "latest_receipt (blockVector after_second) 3 = (0, - 1)"
  by (simp_all add: after_second_def latest_receipt_def blk_def)

lemma balances_pay:
  "latest_receipt (blockVector after_pay) 1 = (49, 9)"
  "latest_receipt (blockVector after_pay) 2 = (0, 8)"
  by (simp_all add: after_pay_def latest_receipt_def blk_def)

lemma balances_first:
  "latest_receipt (blockVector after_first) 2 = (4294967295, 2)"
  by (simp add: after_first_def latest_receipt_def blk_def)

lemma balances_wrap:
  "latest_receipt (blockVector after_wrap) 2 = (0, 5)"
  by (simp add: after_wrap_def latest_receipt_def blk_def)

section \<open>A block that no nonce makes acceptable\<close>

lemma fnv_step_inv: "fnv_step h b = v \<Longrightarrow> h = (v * 899433627) XOR ucast b"
proof -
  assume a: "fnv_step h b = v"
  have i: "(0x01000193 :: u32) * 899433627 = 1" by simp
  have "(h XOR ucast b) * 0x01000193 * (899433627 :: u32) = (h XOR ucast b) * (0x01000193 * 899433627)"
    by (simp only: mult.assoc)
  also have "\<dots> = h XOR ucast b" by (simp only: i mult_1_right)
  finally have "v * 899433627 = h XOR ucast b" using a by (simp only: fnv_step_def)
  then show ?thesis by (simp add: xor.assoc)
qed

lemma xor_byte_hi: "uint ((h :: u32) XOR ucast (b :: u8)) div 256 = uint h div 256"
proof -
  have "drop_bit 8 (h XOR ucast b) = drop_bit 8 h"
    by (rule bit_word_eqI) (auto simp add: bit_simps dest: bit_imp_le_length)
  then have "(h XOR ucast b) div 256 = h div 256" by (simp add: drop_bit_eq_div)
  then have "uint ((h XOR ucast b) div 256) = uint (h div 256)" by simp
  then show ?thesis by (simp add: uint_div)
qed

lemma mod_div_256: "x mod 4294967296 div 256 = x div 256 mod (16777216 :: int)"
proof -
  have "x mod (256 * 16777216) = 256 * (x div 256 mod 16777216) + x mod 256"
    by (rule zmod_zmult2_eq) simp
  then have "x mod 4294967296 = 256 * (x div 256 mod 16777216) + x mod 256" by simp
  then show ?thesis by simp
qed

lemma step_arith:
  "((256 * m + u) * 16777619) mod 4294967296 div 256
     = (403 * m + 65536 * u + 403 * u div 256) mod (16777216 :: int)"
proof -
  define r where "r = 403 * m + 65536 * u"
  define v where "v = 403 * u"
  have "(256 * m + u) * 16777619 = v + 256 * (16777216 * m + r)"
    by (simp add: r_def v_def algebra_simps)
  then have "((256 * m + u) * 16777619) div 256 = (v + 256 * (16777216 * m + r)) div 256"
    by (simp only:)
  also have "\<dots> = 16777216 * m + r + v div 256"
    by (rule div_mult_self2) simp
  also have "\<dots> = 16777216 * m + (r + v div 256)"
    by (simp only: add.assoc)
  finally have "((256 * m + u) * 16777619) div 256 mod 16777216
      = (16777216 * m + (r + v div 256)) mod 16777216"
    by (simp only:)
  also have "\<dots> = (r + v div 256) mod 16777216"
    by (rule mod_mult_self4)
  finally show ?thesis by (simp only: mod_div_256 r_def v_def)
qed

lemma fnv_step_hi:
  "uint (fnv_step h b) div 256 = hi_step (uint h div 256) (uint (h XOR ucast b) mod 256)"
proof -
  define x where "x = h XOR ucast b"
  have d: "uint x div 256 = uint h div 256"
    by (simp only: x_def xor_byte_hi)
  have "uint (fnv_step h b) = (uint x * 16777619) mod 4294967296"
    by (simp add: fnv_step_def x_def uint_word_ariths)
  then have "uint (fnv_step h b) div 256 = (uint x * 16777619) mod 4294967296 div 256"
    by (simp only:)
  also have "\<dots> = ((256 * (uint x div 256) + uint x mod 256) * 16777619) mod 4294967296 div 256"
    by (simp only: mult_div_mod_eq)
  also have "\<dots> = hi_step (uint h div 256) (uint x mod 256)"
    by (simp only: step_arith hi_step_def lowc_def d)
  finally show ?thesis by (simp only: x_def)
qed

lemma word_le_1: "(x :: u32) \<le> 1 \<Longrightarrow> x = 0 \<or> x = 1"
proof -
  assume "x \<le> 1"
  then have "unat x \<le> 1" by (simp add: word_le_nat_alt)
  then have "unat x = 0 \<or> unat x = 1" by arith
  then show ?thesis
  proof
    assume "unat x = 0"
    then show ?thesis by (simp add: unat_eq_0)
  next
    assume "unat x = 1"
    then have "unat x = unat (1 :: u32)" by simp
    then have "x = 1" by (simp only: word_unat_eq_iff)
    then show ?thesis by simp
  qed
qed

lemma all_range_D: "all_range P lo hi \<Longrightarrow> lo \<le> j \<Longrightarrow> j \<le> hi \<Longrightarrow> P j"
proof (induction P lo hi rule: all_range.induct)
  case (1 P lo hi)
  from 1(2) 1(3) 1(4) have c: "\<not> hi < lo" and p: "P lo" and r: "all_range P (lo + 1) hi"
    by (simp_all add: all_range.simps [of P lo hi])
  show ?case
  proof (cases "j = lo")
    case True
    with p show ?thesis by simp
  next
    case False
    with 1(3) have "lo + 1 \<le> j" by simp
    from 1(1) [OF c r this 1(4)] show ?thesis .
  qed
qed

lemma lowc_table: "all_range (\<lambda>u. lowc_inv (lowc u) = u \<and> 0 \<le> lowc u \<and> lowc u \<le> 401) 0 255"
  by code_simp

lemma lowc_inv_eq: "0 \<le> u \<Longrightarrow> u < 256 \<Longrightarrow> lowc_inv (lowc u) = u \<and> 0 \<le> lowc u \<and> lowc u \<le> 401"
  using all_range_D [OF lowc_table, of u] by simp

lemma digits:
  assumes "0 \<le> d0" "0 \<le> d1" "d1 \<le> 401" "0 \<le> d2" "d2 \<le> 401"
    and "s = 162409 * d0 + 403 * d1 + (d2 :: int)"
  shows "s div 162409 = d0" and "s mod 162409 div 403 = d1" and "s mod 162409 mod 403 = d2"
proof -
  define r where "r = 403 * d1 + d2"
  have r: "0 \<le> r" "r < 162409" using assms(2-5) by (simp_all add: r_def)
  have s: "s = r + 162409 * d0" using assms(6) by (simp add: r_def)
  have "s div 162409 = d0 + r div 162409" unfolding s by (rule div_mult_self2) simp
  with r show "s div 162409 = d0" by simp
  have "s mod 162409 = r mod 162409" unfolding s by (rule mod_mult_self2)
  with r have m: "s mod 162409 = d2 + 403 * d1" by (simp add: r_def)
  have "(d2 + 403 * d1) div 403 = d1 + d2 div 403" by (rule div_mult_self2) simp
  with assms(4,5) show "s mod 162409 div 403 = d1" unfolding m by simp
  have "(d2 + 403 * d1) mod 403 = d2 mod 403" by (rule mod_mult_self2)
  with assms(4,5) show "s mod 162409 mod 403 = d2" unfolding m by simp
qed

lemma hi_step3:
  "hi_step (hi_step (hi_step m u0) u1) u2
     = hi3 (65450827 * m) u0 u1 u2 (162409 * lowc u0 + 403 * lowc u1 + lowc u2)"
proof -
  have hs: "hi_step x u = (403 * x + (65536 * u + lowc u)) mod 16777216" for x u
    by (simp add: hi_step_def add.assoc)
  have st: "(403 * (x mod 16777216) + a) mod 16777216 = (403 * x + a) mod 16777216" for x a :: int
    by (metis mod_add_left_eq mod_mult_right_eq)
  have "hi_step (hi_step (hi_step m u0) u1) u2
      = (403 * ((403 * ((403 * m + (65536 * u0 + lowc u0)) mod 16777216) + (65536 * u1 + lowc u1))
           mod 16777216) + (65536 * u2 + lowc u2)) mod 16777216"
    by (simp only: hs)
  also have "\<dots> = (403 * (403 * (403 * m + (65536 * u0 + lowc u0)) + (65536 * u1 + lowc u1))
           + (65536 * u2 + lowc u2)) mod 16777216"
    by (simp only: st)
  also have "403 * (403 * (403 * m + (65536 * u0 + lowc u0)) + (65536 * u1 + lowc u1))
           + (65536 * u2 + lowc u2)
      = 65450827 * m + 65536 * (162409 * u0 + 403 * u1 + u2) + (162409 * lowc u0 + 403 * lowc u1 + lowc u2)"
    by (simp add: algebra_simps)
  finally show ?thesis by (simp only: hi3_def)
qed

lemma foldl_fnv_inv: "foldl fnv_step x bs = v \<Longrightarrow> x = foldr unstep bs v"
proof (induction bs arbitrary: x)
  case Nil
  then show ?case by simp
next
  case (Cons b bs)
  from Cons.prems have "foldl fnv_step (fnv_step x b) bs = v" by simp
  from Cons.IH [OF this] have "fnv_step x b = foldr unstep bs v" .
  from fnv_step_inv [OF this] have "x = unstep b (foldr unstep bs v)"
    by (simp only: unstep_def)
  then show ?case by simp
qed

lemma hi3_cong: "c mod 16777216 = c' mod 16777216 \<Longrightarrow> hi3 c u0 u1 u2 s = hi3 c' u0 u1 u2 s"
proof -
  assume a: "c mod 16777216 = c' mod 16777216"
  define r where "r = 65536 * (162409 * u0 + 403 * u1 + u2) + s"
  have "(c + r) mod 16777216 = (c mod 16777216 + r) mod 16777216" by (simp only: mod_add_left_eq)
  also have "\<dots> = (c' + r) mod 16777216" by (simp only: a mod_add_left_eq)
  finally show ?thesis by (simp only: hi3_def r_def add.assoc)
qed

lemma no_hit:
  assumes chk: "all_range (cand c mu k) 0 999"
    and k: "k = (mu - c) mod 65536"
    and u: "0 \<le> u0" "u0 < 256" "0 \<le> u1" "u1 < 256" "0 \<le> u2" "u2 < 256"
  shows "hi3 c u0 u1 u2 (162409 * lowc u0 + 403 * lowc u1 + lowc u2) \<noteq> mu"
proof
  define s where "s = 162409 * lowc u0 + 403 * lowc u1 + lowc u2"
  define x where "x = 162409 * u0 + 403 * u1 + u2"
  assume "hi3 c u0 u1 u2 (162409 * lowc u0 + 403 * lowc u1 + lowc u2) = mu"
  then have h: "hi3 c u0 u1 u2 s = mu" by (simp only: s_def)
  from lowc_inv_eq [OF u(1,2)] lowc_inv_eq [OF u(3,4)] lowc_inv_eq [OF u(5,6)]
  have i: "lowc_inv (lowc u0) = u0" "lowc_inv (lowc u1) = u1" "lowc_inv (lowc u2) = u2"
    and b: "0 \<le> lowc u0" "lowc u0 \<le> 401" "0 \<le> lowc u1" "lowc u1 \<le> 401" "0 \<le> lowc u2" "lowc u2 \<le> 401"
    by simp_all
  from b have sb: "0 \<le> s" "s \<le> 65288013" by (simp_all add: s_def)
  have "c + 65536 * (162409 * u0 + 403 * u1 + u2) + s = c + s + 65536 * x"
    by (simp add: x_def)
  with h have "(c + s + 65536 * x) mod 16777216 = mu"
    by (simp only: hi3_def)
  then have "(c + s + 65536 * x) mod 16777216 mod 65536 = mu mod 65536" by simp
  moreover have "(c + s + 65536 * x) mod 16777216 mod 65536 = (c + s + 65536 * x) mod 65536"
    by (rule mod_mod_cancel) simp
  moreover have "(c + s + 65536 * x) mod 65536 = (c + s) mod 65536" by (rule mod_mult_self2)
  ultimately have cs: "(c + s) mod 65536 = mu mod 65536" by simp
  have "s mod 65536 = ((c + s) - c) mod 65536" by simp
  also have "\<dots> = ((c + s) mod 65536 - c) mod 65536" by (simp only: mod_diff_left_eq)
  also have "\<dots> = (mu - c) mod 65536" by (simp only: cs mod_diff_left_eq)
  finally have sk: "s mod 65536 = k" by (simp only: k)
  define j where "j = s div 65536"
  from sb have jb: "0 \<le> j" "j \<le> 999" by (simp_all add: j_def)
  have "s = 65536 * (s div 65536) + s mod 65536" by simp
  then have sj: "k + 65536 * j = s" by (simp only: sk j_def add.commute)
  from all_range_D [OF chk jb] have "cand c mu k j" .
  then have "hi3 c (lowc_inv (s div 162409)) (lowc_inv (s mod 162409 div 403))
      (lowc_inv (s mod 162409 mod 403)) s \<noteq> mu"
    unfolding cand_def cand_a_def cand_b_def sj .
  moreover from digits [OF b(1) b(3,4) b(5,6) s_def]
  have "s div 162409 = lowc u0" "s mod 162409 div 403 = lowc u1" "s mod 162409 mod 403 = lowc u2" .
  ultimately have "hi3 c u0 u1 u2 s \<noteq> mu" by (simp add: i)
  with h show False by simp
qed

lemma three_steps:
  assumes "uint (fnv_step (fnv_step (fnv_step h b0) b1) b2) div 256 = mu"
    and "(65450827 * (uint h div 256)) mod 16777216 = c mod 16777216"
    and "all_range (cand c mu k) 0 999" and "k = (mu - c) mod 65536"
  shows False
proof -
  define s1 where "s1 = fnv_step h b0"
  define s2 where "s2 = fnv_step s1 b1"
  define u0 where "u0 = uint (h XOR ucast b0) mod 256"
  define u1 where "u1 = uint (s1 XOR ucast b1) mod 256"
  define u2 where "u2 = uint (s2 XOR ucast b2) mod 256"
  have u: "0 \<le> u0" "u0 < 256" "0 \<le> u1" "u1 < 256" "0 \<le> u2" "u2 < 256"
    by (simp_all add: u0_def u1_def u2_def)
  have "uint (fnv_step s2 b2) div 256 = hi_step (uint s2 div 256) u2"
    by (simp only: fnv_step_hi u2_def)
  also have "uint s2 div 256 = hi_step (uint s1 div 256) u1"
    by (simp only: s2_def fnv_step_hi u1_def)
  also have "uint s1 div 256 = hi_step (uint h div 256) u0"
    by (simp only: s1_def fnv_step_hi u0_def)
  finally have "uint (fnv_step s2 b2) div 256
      = hi3 (65450827 * (uint h div 256)) u0 u1 u2 (162409 * lowc u0 + 403 * lowc u1 + lowc u2)"
    by (simp only: hi_step3)
  also have "\<dots> = hi3 c u0 u1 u2 (162409 * lowc u0 + 403 * lowc u1 + lowc u2)"
    by (rule hi3_cong) (rule assms(2))
  finally have "hi3 c u0 u1 u2 (162409 * lowc u0 + 403 * lowc u1 + lowc u2) = mu"
    using assms(1) by (simp only: s1_def s2_def)
  with no_hit [OF assms(3,4) u] show False by simp
qed

lemma check0: "all_range (cand 12787281 3513412 32243) 0 999"
  by code_simp

lemma check1: "all_range (cand 12787281 7003155 48578) 0 999"
  by code_simp

text \<open>
  From the state 1238848303, no four bytes followed by the bytes of threshold 1 and of
  padding 0 lead to a digest of 0 or 1.
\<close>

lemma no_nonce:
  "foldl fnv_step (foldl fnv_step 1238848303 [b0, b1, b2, b3]) [1, 0, 0, 0, 0, 0, 0, 0] \<le> 1
     \<Longrightarrow> False"
proof -
  define s3 where "s3 = fnv_step (fnv_step (fnv_step 1238848303 b0) b1) b2"
  assume "foldl fnv_step (foldl fnv_step 1238848303 [b0, b1, b2, b3]) [1, 0, 0, 0, 0, 0, 0, 0] \<le> 1"
  then have a: "foldl fnv_step (fnv_step s3 b3) [1, 0, 0, 0, 0, 0, 0, 0] \<le> 1"
    by (simp only: s3_def foldl.simps)
  have m: "(65450827 * (uint (1238848303 :: u32) div 256)) mod 16777216 = 12787281 mod 16777216"
    by simp
  from word_le_1 [OF a] show False
  proof
    assume "foldl fnv_step (fnv_step s3 b3) [1, 0, 0, 0, 0, 0, 0, 0] = 0"
    from foldl_fnv_inv [OF this] have "fnv_step s3 b3 = foldr unstep [1, 0, 0, 0, 0, 0, 0, 0] 0" .
    also have "\<dots> = 1" by code_simp
    finally have "s3 = (1 * 899433627) XOR ucast b3" by (rule fnv_step_inv)
    then have "uint s3 div 256 = uint (1 * 899433627 :: u32) div 256"
      by (simp only: xor_byte_hi)
    also have "\<dots> = 3513412" by simp
    finally have "uint (fnv_step (fnv_step (fnv_step 1238848303 b0) b1) b2) div 256 = 3513412"
      by (simp only: s3_def)
    from three_steps [OF this m check0] show False by simp
  next
    assume "foldl fnv_step (fnv_step s3 b3) [1, 0, 0, 0, 0, 0, 0, 0] = 1"
    from foldl_fnv_inv [OF this] have "fnv_step s3 b3 = foldr unstep [1, 0, 0, 0, 0, 0, 0, 0] 1" .
    also have "\<dots> = 3631408352" by code_simp
    finally have "s3 = (3631408352 * 899433627) XOR ucast b3" by (rule fnv_step_inv)
    then have "uint s3 div 256 = uint (3631408352 * 899433627 :: u32) div 256"
      by (simp only: xor_byte_hi)
    also have "\<dots> = 7003155" by simp
    finally have "uint (fnv_step (fnv_step (fnv_step 1238848303 b0) b1) b2) div 256 = 7003155"
      by (simp only: s3_def)
    from three_steps [OF this m check1] show False by simp
  qed
qed

lemma early_block_digest:
  "digest (early_block\<lparr>threshold := 1, nonce := n\<rparr>)
     = foldl fnv_step (foldl fnv_step 1238848303
         [ucast n, ucast (drop_bit 8 n), ucast (drop_bit 16 n), ucast (drop_bit 24 n)])
         [1, 0, 0, 0, 0, 0, 0, 0]"
proof -
  have p: "foldl fnv_step 0x811c9dc5 (block_prefix early_block) = 1238848303"
    by code_simp
  have t: "bytes_u32 1 @ bytes_u32 0 = [1, 0, 0, 0, 0, 0, 0, 0]"
    by code_simp
  have z: "padding early_block = 0"
    by (simp add: early_block_def blk_def)
  have "image (early_block\<lparr>threshold := 1, nonce := n\<rparr>)
      = block_prefix early_block @ bytes_u32 n @ (bytes_u32 1 @ bytes_u32 0)"
    by (simp add: image_def z)
  then have "digest (early_block\<lparr>threshold := 1, nonce := n\<rparr>)
      = foldl fnv_step (foldl fnv_step 1238848303 (bytes_u32 n)) [1, 0, 0, 0, 0, 0, 0, 0]"
    by (simp only: digest_def fnv_hash_1a_32_def foldl_append p t)
  then show ?thesis by (simp only: bytes_u32_def)
qed

lemma early_block_never: "\<not> accepts early_block 1 n"
  unfolding accepts_def early_block_digest using no_nonce by blast

lemma early_block_diverges: "hashBlock early_block 1 = None"
proof (cases "hashBlock early_block 1")
  case None
  then show ?thesis .
next
  case (Some r)
  obtain h b' where "r = (h, b')" by (cases r)
  with Some have s: "hashBlock early_block 1 = Some (h, b')" by simp
  have "(1 :: u32) \<noteq> - 1" by simp
  from hashBlock_sound [OF this s] have "accepts early_block 1 (nonce b')" by blast
  with early_block_never show ?thesis by blast
qed

section \<open>Conservation\<close>

text \<open>
  Claim C1, as the code has it. Take a state reached from the genesis block by calls of
  \<^verbatim>\<open>sendAmount\<close> that returned, few enough that the 32-bit block counter has not wrapped
  around, and an accepted \<^verbatim>\<open>sendAmount(s, r, a)\<close> with \<open>s \<noteq> 0\<close> and \<open>r \<noteq> s\<close>. The balance of the
  sender's latest receipt was at least \<open>a\<close> and is lowered by exactly \<open>a\<close>. The balance of
  the receiver's latest receipt becomes the old balance plus \<open>a\<close> in \<^verbatim>\<open>unsigned\<close>
  arithmetic, that is modulo \<open>2\<^sup>3\<^sup>2\<close>: \<^verbatim>\<open>generateReceipt\<close> adds without a check.
\<close>
theorem conservation_mod:
  assumes "run cs (genesis data seed amb) = Some st" and "3 * length cs + 1 < 2 ^ 32"
    and "sendAmount s r a a1 a2 a3 st = Some (0, st')" and "s \<noteq> 0" and "r \<noteq> s"
  shows "unat a \<le> unat (fst (latest_receipt (blockVector st) s))
     \<and> unat (fst (latest_receipt (blockVector st') s))
         = unat (fst (latest_receipt (blockVector st) s)) - unat a
     \<and> unat (fst (latest_receipt (blockVector st') r))
         = (unat (fst (latest_receipt (blockVector st) r)) + unat a) mod 2 ^ 32"
proof -
  from indices_ok_run [OF assms(1)] assms(2) have ok: "indices_ok st" by simp
  note d = indices_ok_distinct [OF ok]
  note b = accepted_balances [OF assms(3)]
  have le: "a \<le> fst (latest_receipt (blockVector st) s)" using b(4) assms(4) by simp
  have snd: "fst (latest_receipt (blockVector st') s) = fst (latest_receipt (blockVector st) s) - a"
  proof (cases "snd (latest_receipt (blockVector st) s) = - 1")
    case True
    from latest_receipt_no_max_index [OF d(2) True] le have "a = 0" by simp
    with b(2) True show ?thesis by simp
  next
    case False
    from b(3) [OF assms(4) False] scan_index_latest [OF d(1) False] show ?thesis by simp
  qed
  have "unat (fst (latest_receipt (blockVector st') r))
         = (unat (fst (latest_receipt (blockVector st) r)) + unat a) mod 2 ^ 32"
    by (simp add: b(1) unat_word_ariths)
  moreover have "unat a \<le> unat (fst (latest_receipt (blockVector st) s))"
    using le by (simp add: word_le_nat_alt)
  moreover have "unat (fst (latest_receipt (blockVector st') s))
         = unat (fst (latest_receipt (blockVector st) s)) - unat a"
    using le by (simp add: snd unat_sub)
  ultimately show ?thesis by simp
qed

theorem conservation_mod_witness:
  "run [first_call, second_call] (genesis demo_data 42 (tick 2404)) = Some after_second
   \<and> 3 * length [first_call, second_call] + 1 < (2::nat) ^ 32
   \<and> sendAmount 1 2 1 (tick 17914) (tick 22237) (tick 23112) after_second = Some (0, after_pay)
   \<and> (1::u32) \<noteq> 0 \<and> (2::u32) \<noteq> 1
   \<and> unat (1::u32) \<le> unat (fst (latest_receipt (blockVector after_second) 1))
   \<and> unat (fst (latest_receipt (blockVector after_pay) 1))
         = unat (fst (latest_receipt (blockVector after_second) 1)) - unat (1::u32)
   \<and> unat (fst (latest_receipt (blockVector after_pay) 2))
         = (unat (fst (latest_receipt (blockVector after_second) 2)) + unat (1::u32)) mod 2 ^ 32"
proof -
  have b: "3 * length [first_call, second_call] + 1 < (2::nat) ^ 32" by simp
  have n: "(1::u32) \<noteq> 0" "(2::u32) \<noteq> 1" by simp_all
  from conservation_mod [OF run_second b sendAmount_pay n]
  show ?thesis by (intro conjI run_second b sendAmount_pay n) simp_all
qed

text \<open>
  The claim as stated fails where the sum does not fit: account 2 holds 4294967295, is
  sent 1 by account 1, and holds 0 afterwards.
\<close>

theorem conservation_overflow:
  "run [first_call, second_call] (genesis demo_data 42 (tick 2404)) = Some after_second
   \<and> sendAmount 1 2 1 (tick 17914) (tick 22237) (tick 23112) after_second = Some (0, after_pay)
   \<and> fst (latest_receipt (blockVector after_second) 2) = 4294967295
   \<and> fst (latest_receipt (blockVector after_pay) 2) = 0
   \<and> unat (fst (latest_receipt (blockVector after_pay) 2))
         \<noteq> unat (fst (latest_receipt (blockVector after_second) 2)) + unat (1::u32)"
proof -
  have "fst (latest_receipt (blockVector after_second) 2) = 4294967295"
    and "fst (latest_receipt (blockVector after_pay) 2) = 0"
    and "unat (fst (latest_receipt (blockVector after_pay) 2))
         \<noteq> unat (fst (latest_receipt (blockVector after_second) 2)) + unat (1::u32)"
    by (simp_all add: balances_second balances_pay)
  then show ?thesis by (intro conjI run_second sendAmount_pay)
qed

section \<open>What generateTransfer returns\<close>

text \<open>
  Claim C2. On the chain of any state reached from the genesis block, \<^verbatim>\<open>generateTransfer\<close>
  returns \<^verbatim>\<open>INVALID\<close> exactly when the sender is the receiver, or the receiver is 0, or the
  sender is not 0 and the balance of its latest receipt is below the amount. Otherwise
  the transaction is a \<^verbatim>\<open>GENERATE\<close> for sender 0 and a \<^verbatim>\<open>TRANSFER\<close> for any other sender,
  with the given sender, receiver and amount, and \<^verbatim>\<open>prevReceipt\<close> is the index of the
  sender's latest receipt; that index is \<^verbatim>\<open>UINT_MAX\<close> for a sender with no receipt, and
  account 0 never has one.
\<close>
theorem build_transfer_result:
  assumes "run cs (genesis data seed amb) = Some st"
  shows "(type (generateTransfer (blockVector st) s r a) = INVALID
           \<longleftrightarrow> s = r \<or> r = 0 \<or> (s \<noteq> 0 \<and> fst (latest_receipt (blockVector st) s) < a))
       \<and> (type (generateTransfer (blockVector st) s r a) \<noteq> INVALID \<longrightarrow>
            generateTransfer (blockVector st) s r a =
              \<lparr>type = (if s = 0 then GENERATE else TRANSFER), slot0 = s, slot1 = r,
               slot2 = snd (latest_receipt (blockVector st) s), slot3 = a\<rparr>)
       \<and> (list_all (\<lambda>b. \<not> (type (transaction b) = RECEIPT \<and> account (transaction b) = s))
             (blockVector st) \<longrightarrow> snd (latest_receipt (blockVector st) s) = - 1)
       \<and> snd (latest_receipt (blockVector st) 0) = - 1"
proof -
  from no_receipt_for_zero_run [OF assms]
  have z: "latest_receipt (blockVector st) 0 = (0, - 1)"
    unfolding no_receipt_for_zero_def by (rule latest_receipt_none)
  have "type (generateTransfer (blockVector st) s r a) \<noteq> INVALID \<Longrightarrow>
            generateTransfer (blockVector st) s r a =
              \<lparr>type = (if s = 0 then GENERATE else TRANSFER), slot0 = s, slot1 = r,
               slot2 = snd (latest_receipt (blockVector st) s), slot3 = a\<rparr>"
    by (subst generateTransfer_valid(1)) (auto simp: z)
  then show ?thesis
    by (simp add: generateTransfer_invalid_iff z latest_receipt_none)
qed

theorem build_transfer_result_witness:
  "run [first_call, second_call] (genesis demo_data 42 (tick 2404)) = Some after_second
   \<and> type (generateTransfer (blockVector after_second) 1 2 1) \<noteq> INVALID
   \<and> generateTransfer (blockVector after_second) 1 2 1
        = \<lparr>type = TRANSFER, slot0 = 1, slot1 = 2, slot2 = 5, slot3 = 1\<rparr>
   \<and> type (generateTransfer (blockVector after_second) 1 2 51) = INVALID
   \<and> list_all (\<lambda>b. \<not> (type (transaction b) = RECEIPT \<and> account (transaction b) = 3))
         (blockVector after_second)
   \<and> snd (latest_receipt (blockVector after_second) 3) = - 1
   \<and> generateTransfer (blockVector after_second) 0 3 9
        = \<lparr>type = GENERATE, slot0 = 0, slot1 = 3, slot2 = - 1, slot3 = 9\<rparr>"
proof -
  have n3: "list_all (\<lambda>b. \<not> (type (transaction b) = RECEIPT \<and> account (transaction b) = 3))
         (blockVector after_second)"
    by (simp add: after_second_def blk_def)
  have a: "type (generateTransfer (blockVector after_second) 1 2 1) \<noteq> INVALID"
    using build_transfer_result [OF run_second, of 1 2 1] by (simp add: balances_second)
  have b: "generateTransfer (blockVector after_second) 1 2 1
        = \<lparr>type = TRANSFER, slot0 = 1, slot1 = 2, slot2 = 5, slot3 = 1\<rparr>"
    using build_transfer_result [OF run_second, of 1 2 1] a by (simp add: balances_second)
  have c: "type (generateTransfer (blockVector after_second) 1 2 51) = INVALID"
    using build_transfer_result [OF run_second, of 1 2 51] by (simp add: balances_second)
  have d: "snd (latest_receipt (blockVector after_second) 3) = - 1"
    using build_transfer_result [OF run_second, of 3 2 0] n3 by blast
  have "type (generateTransfer (blockVector after_second) 0 3 9) \<noteq> INVALID"
    using build_transfer_result [OF run_second, of 0 3 9] by simp
  with build_transfer_result [OF run_second, of 0 3 9]
  have e: "generateTransfer (blockVector after_second) 0 3 9
        = \<lparr>type = GENERATE, slot0 = 0, slot1 = 3, slot2 = - 1, slot3 = 9\<rparr>"
    by simp
  show ?thesis by (intro conjI run_second a b c n3 d e)
qed

section \<open>Rejected sends\<close>

text \<open>
  Claim C3, as the code has it. \<^verbatim>\<open>sendAmount\<close> mines the stored tail before it looks at the
  transfer, so a call that returns a rejection code leaves the length of the chain and
  every block before the tail as they were, and leaves the tail with the same index,
  previous hash, timestamp and transaction, but with \<^verbatim>\<open>threshold\<close> set to \<open>2\<^sup>2\<^sup>0\<close> and
  \<^verbatim>\<open>nonce\<close> set to the first nonce accepted at that threshold. The tail is unchanged only
  if it already held these two values.
\<close>
theorem rejected_send_mines_tail:
  assumes "sendAmount s r a a1 a2 a3 st = Some (rc, st')" and "rc \<noteq> 0"
  shows "length (blockVector st') = length (blockVector st)
     \<and> butlast (blockVector st') = butlast (blockVector st)
     \<and> last (blockVector st')
         = (last (blockVector st))\<lparr>threshold := threshold_const, nonce := nonce (last (blockVector st'))\<rparr>
     \<and> accepts (last (blockVector st)) threshold_const (nonce (last (blockVector st')))
     \<and> (\<forall>m. m < nonce (last (blockVector st')) \<longrightarrow> \<not> accepts (last (blockVector st)) threshold_const m)"
  using assms(1)
proof (cases rule: sendAmount_elim)
  case (rejected xs x tail)
  from hashBlock_sound [OF threshold_const_not_max rejected(2)]
  have "accepts x threshold_const (nonce tail)" and "\<forall>m<nonce tail. \<not> accepts x threshold_const m"
    by simp_all
  with rejected(1,3,7) show ?thesis by simp
next
  case (accepted xs x tail transfer' receipt' ret)
  with assms(2) show ?thesis by simp
qed

theorem rejected_send_mines_tail_witness:
  "sendAmount 1 1 50 (tick 2405) (tick 2406) (tick 2407) (genesis demo_data 42 (tick 2404))
     = Some (- 1, after_reject)
   \<and> (- 1 :: int) \<noteq> 0
   \<and> length (blockVector after_reject) = length (blockVector (genesis demo_data 42 (tick 2404)))
   \<and> last (blockVector after_reject)
       = (last (blockVector (genesis demo_data 42 (tick 2404))))\<lparr>threshold := threshold_const,
            nonce := nonce (last (blockVector after_reject))\<rparr>
   \<and> nonce (last (blockVector after_reject)) = 2
   \<and> accepts (last (blockVector (genesis demo_data 42 (tick 2404)))) threshold_const 2
   \<and> \<not> accepts (last (blockVector (genesis demo_data 42 (tick 2404)))) threshold_const 1
   \<and> \<not> accepts (last (blockVector (genesis demo_data 42 (tick 2404)))) threshold_const 0"
proof -
  have n: "(- 1 :: int) \<noteq> 0" by simp
  have k: "nonce (last (blockVector after_reject)) = 2"
    by (simp add: after_reject_def blk_def)
  note t = rejected_send_mines_tail [OF send_reject n]
  from t have l: "length (blockVector after_reject)
      = length (blockVector (genesis demo_data 42 (tick 2404)))" by blast
  from t have e: "last (blockVector after_reject)
       = (last (blockVector (genesis demo_data 42 (tick 2404))))\<lparr>threshold := threshold_const,
            nonce := nonce (last (blockVector after_reject))\<rparr>" by blast
  from t have a: "accepts (last (blockVector (genesis demo_data 42 (tick 2404)))) threshold_const 2"
    unfolding k by blast
  from t have f: "\<forall>m. m < 2 \<longrightarrow>
      \<not> accepts (last (blockVector (genesis demo_data 42 (tick 2404)))) threshold_const m"
    unfolding k by blast
  have "(1 :: u32) < 2" and "(0 :: u32) < 2" by simp_all
  with f have r1: "\<not> accepts (last (blockVector (genesis demo_data 42 (tick 2404)))) threshold_const 1"
    and r0: "\<not> accepts (last (blockVector (genesis demo_data 42 (tick 2404)))) threshold_const 0"
    by blast+
  show ?thesis by (intro conjI send_reject n l e k a r1 r0)
qed

text \<open>
  The claim as stated fails on the first call after the genesis block: the send from
  account 1 to itself is rejected, and the threshold field of the genesis block, 0
  before the call, is \<open>2\<^sup>2\<^sup>0\<close> after it.
\<close>

theorem rejected_send_changes_tail:
  "sendAmount 1 1 50 (tick 2405) (tick 2406) (tick 2407) (genesis demo_data 42 (tick 2404))
     = Some (- 1, after_reject)
   \<and> threshold (last (blockVector (genesis demo_data 42 (tick 2404)))) = 0
   \<and> threshold (last (blockVector after_reject)) = 1048576
   \<and> blockVector after_reject \<noteq> blockVector (genesis demo_data 42 (tick 2404))"
proof -
  have "threshold (last (blockVector (genesis demo_data 42 (tick 2404)))) = 0"
    and "threshold (last (blockVector after_reject)) = 1048576"
    and "blockVector after_reject \<noteq> blockVector (genesis demo_data 42 (tick 2404))"
    by (simp_all add: genesis_eq after_reject_def blk_def tick_def)
  then show ?thesis by (intro conjI send_reject)
qed

section \<open>The return receipt\<close>

text \<open>
  Claim C4 at a concrete input. In the run above, account 1 has its latest receipt in
  the block of index 5 when it sends 1 to account 2. \<^verbatim>\<open>generateReturn\<close>, given the transfer
  block and the receipt block of that send, builds a receipt whose \<^verbatim>\<open>prevReceipt\<close> is 1,
  the account number of the sender, and not 5; that receipt is the block the send
  stores last.
\<close>

theorem build_return_prev_receipt:
  "generateReturn (blockVector after_second)
       (blk 7 544124 17914 TRANSFER 1 2 5 1 1 1048576) (blk 8 907007 22237 RECEIPT 2 2 7 0 0 1048576)
     = \<lparr>type = RECEIPT, slot0 = 1, slot1 = 1, slot2 = 8, slot3 = 49\<rparr>
   \<and> snd (latest_receipt (blockVector after_second) 1) = 5
   \<and> sendAmount 1 2 1 (tick 17914) (tick 22237) (tick 23112) after_second = Some (0, after_pay)
   \<and> receipt_prevReceipt (transaction (last (blockVector after_pay))) = 1"
proof -
  have "generateReturn (blockVector after_second)
       (blk 7 544124 17914 TRANSFER 1 2 5 1 1 1048576) (blk 8 907007 22237 RECEIPT 2 2 7 0 0 1048576)
     = \<lparr>type = RECEIPT, slot0 = 1, slot1 = 1, slot2 = 8, slot3 = 49\<rparr>"
    by (simp add: generateReturn_def after_second_def blk_def)
  moreover have "snd (latest_receipt (blockVector after_second) 1) = 5"
    by (simp add: balances_second)
  moreover have "receipt_prevReceipt (transaction (last (blockVector after_pay))) = 1"
    by (simp add: after_pay_def blk_def)
  ultimately show ?thesis by (intro conjI sendAmount_pay)
qed

section \<open>Chain linkage\<close>

text \<open>
  Claim C5. In every state reached from the genesis block by a sequence of
  \<^verbatim>\<open>sendAmount\<close> calls that return, accepted or rejected, each block but the first
  carries in \<^verbatim>\<open>prevHash\<close> the digest of the image of the block stored before it, taken
  with the nonce and threshold that block now holds.
\<close>

theorem chain_linkage:
  "run cs (genesis data seed amb) = Some st \<Longrightarrow> 0 < i \<Longrightarrow> i < length (blockVector st)
     \<Longrightarrow> prevHash (blockVector st ! i) = digest (blockVector st ! (i - 1))"
  by (rule linked_nth [OF linked_run])

theorem chain_linkage_witness:
  "run [first_call, second_call, pay_call] (genesis demo_data 42 (tick 2404)) = Some after_pay
   \<and> (0::nat) < 7 \<and> 7 < length (blockVector after_pay)
   \<and> prevHash (blockVector after_pay ! 7) = digest (blockVector after_pay ! (7 - 1))"
proof -
  have l: "(0::nat) < 7" "7 < length (blockVector after_pay)" by (simp_all add: after_pay_def)
  from chain_linkage [OF run_pay l]
  show ?thesis by (intro conjI run_pay l)
qed

section \<open>Proof of work\<close>

text \<open>
  Claim C6, as the code has it. After an accepted send from a state reached from the
  genesis block, every block but the last has threshold \<open>2\<^sup>2\<^sup>0\<close> and a digest, taken with
  its stored nonce and threshold, that is at most that threshold. The last block has
  them too when the send appended two blocks, its receipt being mined before it is
  stored. The return block that a send with a sender balance appends is stored as
  \<^verbatim>\<open>generateBlock\<close> made it, its nonce and threshold never written: \<^verbatim>\<open>sendAmount\<close> mines
  it at the start of the next call.
\<close>
theorem proof_of_work_but_tail:
  assumes "run cs (genesis data seed amb) = Some st" and "send c st = Some (0, st')"
  shows "(\<forall>i. i + 1 < length (blockVector st') \<longrightarrow>
            digest (blockVector st' ! i) \<le> threshold (blockVector st' ! i)
            \<and> threshold (blockVector st' ! i) = threshold_const)
     \<and> (length (blockVector st') = length (blockVector st) + 2 \<longrightarrow>
            digest (last (blockVector st')) \<le> threshold (last (blockVector st'))
            \<and> threshold (last (blockVector st')) = threshold_const)"
proof -
  from work_send [OF assms(2) work_run [OF assms(1)]]
  have a: "list_all mined (butlast (blockVector st'))"
    and b: "length (blockVector st') \<noteq> length (blockVector st) + 3 \<longrightarrow> mined (last (blockVector st'))"
    by simp_all
  have "\<forall>i. i + 1 < length (blockVector st') \<longrightarrow> mined (blockVector st' ! i)"
  proof (intro allI impI)
    fix i assume i: "i + 1 < length (blockVector st')"
    then have "i < length (butlast (blockVector st'))" by simp
    with a have "mined (butlast (blockVector st') ! i)" by (simp add: list_all_length)
    with i show "mined (blockVector st' ! i)" by (simp add: nth_butlast)
  qed
  with b show ?thesis unfolding mined_def by auto
qed

theorem proof_of_work_but_tail_witness:
  "run [first_call, second_call] (genesis demo_data 42 (tick 2404)) = Some after_second
   \<and> send pay_call after_second = Some (0, after_pay)
   \<and> 6 + 1 < length (blockVector after_pay)
   \<and> digest (blockVector after_pay ! 6) \<le> threshold (blockVector after_pay ! 6)
   \<and> run [first_call] (genesis demo_data 42 (tick 2404)) = Some after_first
   \<and> send second_call after_first = Some (0, after_second)
   \<and> length (blockVector after_second) = length (blockVector after_first) + 2
   \<and> digest (last (blockVector after_second)) \<le> threshold (last (blockVector after_second))"
proof -
  have l: "6 + 1 < length (blockVector after_pay)"
    "length (blockVector after_second) = length (blockVector after_first) + 2"
    by (simp_all add: after_pay_def after_second_def after_first_def)
  from proof_of_work_but_tail [OF run_second send_pay] l(1)
  have "digest (blockVector after_pay ! 6) \<le> threshold (blockVector after_pay ! 6)" by blast
  moreover from proof_of_work_but_tail [OF run_first send_second] l(2)
  have "digest (last (blockVector after_second)) \<le> threshold (last (blockVector after_second))"
    by blast
  ultimately show ?thesis by (intro conjI run_second send_pay run_first send_second l)
qed

text \<open>
  The claim as stated fails for the return block: after the accepted send of 1 from
  account 1 to account 2, the last block of the chain holds threshold 0 and its digest
  is above it.
\<close>

theorem unmined_return_tail:
  "run [first_call, second_call] (genesis demo_data 42 (tick 2404)) = Some after_second
   \<and> send pay_call after_second = Some (0, after_pay)
   \<and> threshold (last (blockVector after_pay)) = 0
   \<and> \<not> digest (last (blockVector after_pay)) \<le> threshold (last (blockVector after_pay))"
proof -
  have "threshold (last (blockVector after_pay)) = 0"
    by (simp add: after_pay_def blk_def)
  moreover have "\<not> digest (last (blockVector after_pay)) \<le> threshold (last (blockVector after_pay))"
    by code_simp
  ultimately show ?thesis by (intro conjI run_second send_pay)
qed

section \<open>Block indices\<close>

text \<open>
  Claim C7, as the code has it. \<^verbatim>\<open>generateBlock\<close> takes a fresh counter value on every
  call, also for the block of a rejected transfer and for the return block of a mint,
  which are never stored. So in a state reached from the genesis block by \<open>n\<close> calls of
  \<^verbatim>\<open>sendAmount\<close> that returned, with \<open>3 n + 1 < 2\<^sup>3\<^sup>2\<close> so that the counter has not wrapped
  around, the first block has index 0, the indices grow strictly along the chain, and
  each index is at least the position of its block and below the counter.
\<close>
theorem indices_increase:
  assumes "run cs (genesis data seed amb) = Some st" and "3 * length cs + 1 < 2 ^ 32"
  shows "index (blockVector st ! 0) = 0
     \<and> (\<forall>i j. i < j \<and> j < length (blockVector st) \<longrightarrow>
            unat (index (blockVector st ! i)) < unat (index (blockVector st ! j)))
     \<and> (\<forall>i. i < length (blockVector st) \<longrightarrow>
            i \<le> unat (index (blockVector st ! i))
            \<and> unat (index (blockVector st ! i)) < unat (blockCounter st))"
proof -
  from indices_ok_run [OF assms(1)] assms(2)
  have s: "sorted_wrt (<) (map (\<lambda>b. unat (index b)) (blockVector st))"
    and b: "list_all (\<lambda>b. unat (index b) < unat (blockCounter st)) (blockVector st)"
    by (simp_all add: indices_ok_def)
  from first_index_run [OF assms(1)] have z: "index (blockVector st ! 0) = 0"
    by (cases "blockVector st") simp_all
  have inc: "\<forall>i j. i < j \<and> j < length (blockVector st) \<longrightarrow>
            unat (index (blockVector st ! i)) < unat (index (blockVector st ! j))"
    using sorted_wrt_nth_less [OF s] by auto
  have pos: "\<forall>i. i < length (blockVector st) \<longrightarrow>
            i \<le> unat (index (blockVector st ! i))
            \<and> unat (index (blockVector st ! i)) < unat (blockCounter st)"
    using sorted_wrt_less_ge_position [OF s] b by (auto simp: list_all_length)
  from z inc pos show ?thesis by blast
qed

theorem indices_increase_witness:
  "run [first_call, second_call] (genesis demo_data 42 (tick 2404)) = Some after_second
   \<and> 3 * length [first_call, second_call] + 1 < (2::nat) ^ 32
   \<and> index (blockVector after_second ! 0) = 0
   \<and> (2::nat) < 3 \<and> 3 < length (blockVector after_second)
   \<and> unat (index (blockVector after_second ! 2)) < unat (index (blockVector after_second ! 3))
   \<and> 3 \<le> unat (index (blockVector after_second ! 3))
   \<and> unat (index (blockVector after_second ! 3)) < unat (blockCounter after_second)"
proof -
  have l: "(2::nat) < 3" "3 < length (blockVector after_second)" by (simp_all add: after_second_def)
  have b: "3 * length [first_call, second_call] + 1 < (2::nat) ^ 32" by simp
  note t = indices_increase [OF run_second b]
  from t have z: "index (blockVector after_second ! 0) = 0" by blast
  from t l have i: "unat (index (blockVector after_second ! 2)) < unat (index (blockVector after_second ! 3))"
    by blast
  from t l have p: "3 \<le> unat (index (blockVector after_second ! 3))"
    "unat (index (blockVector after_second ! 3)) < unat (blockCounter after_second)"
    by blast+
  show ?thesis by (intro conjI run_second b z l i p)
qed

text \<open>
  The claim as stated fails after two mints: the return block of the first mint took
  index 3 and was dropped, so the block at position 3 has index 4.
\<close>

theorem index_skips_position:
  "run [first_call, second_call] (genesis demo_data 42 (tick 2404)) = Some after_second
   \<and> index (blockVector after_second ! 3) = 4
   \<and> index (blockVector after_second ! 3) \<noteq> 3"
proof -
  have "index (blockVector after_second ! 3) = 4" and "index (blockVector after_second ! 3) \<noteq> 3"
    by (simp_all add: after_second_def blk_def)
  then show ?thesis by (intro conjI run_second)
qed

section \<open>Mints\<close>

text \<open>
  Claim C8, as the code has it. An accepted \<^verbatim>\<open>sendAmount(0, r, a)\<close> makes the chain two
  blocks longer and leaves the blocks before the old tail as they were: the first new
  block is the \<^verbatim>\<open>GENERATE\<close> transfer, the second the \<^verbatim>\<open>RECEIPT\<close> of account \<open>r\<close> that points
  to it, and there is no return block, so the latest receipt of account 0 is what it
  was. The balance of the latest receipt of \<open>r\<close> becomes the old balance plus \<open>a\<close> in
  \<^verbatim>\<open>unsigned\<close> arithmetic, that is modulo \<open>2\<^sup>3\<^sup>2\<close>. Four calls \<^verbatim>\<open>sendAmount(0, 1, 50)\<close> that
  return, from a chain holding the genesis block alone, leave nine blocks and a balance
  of 200 for account 1.
\<close>

theorem mint_behaviour:
  "(sendAmount 0 r a a1 a2 a3 st = Some (0, st') \<longrightarrow>
      length (blockVector st') = length (blockVector st) + 2
    \<and> take (length (blockVector st) - 1) (blockVector st') = butlast (blockVector st)
    \<and> transaction (blockVector st' ! length (blockVector st))
        = \<lparr>type = GENERATE, slot0 = 0, slot1 = r, slot2 = - 1, slot3 = a\<rparr>
    \<and> transaction (blockVector st' ! (length (blockVector st) + 1))
        = \<lparr>type = RECEIPT, slot0 = r, slot1 = snd (latest_receipt (blockVector st) r),
           slot2 = index (blockVector st' ! length (blockVector st)),
           slot3 = fst (latest_receipt (blockVector st) r) + a\<rparr>
    \<and> latest_receipt (blockVector st') 0 = latest_receipt (blockVector st) 0
    \<and> unat (fst (latest_receipt (blockVector st') r))
        = (unat (fst (latest_receipt (blockVector st) r)) + unat a) mod 2 ^ 32)
   \<and> (run [c1, c2, c3, c4] (genesis data seed amb) = Some st4
      \<and> list_all (\<lambda>c. call_sender c = 0 \<and> call_receiver c = 1 \<and> call_amount c = 50) [c1, c2, c3, c4]
      \<longrightarrow> length (blockVector st4) = 9 \<and> fst (latest_receipt (blockVector st4) 1) = 200)"
proof (rule conjI)
  show "sendAmount 0 r a a1 a2 a3 st = Some (0, st') \<longrightarrow>
      length (blockVector st') = length (blockVector st) + 2
    \<and> take (length (blockVector st) - 1) (blockVector st') = butlast (blockVector st)
    \<and> transaction (blockVector st' ! length (blockVector st))
        = \<lparr>type = GENERATE, slot0 = 0, slot1 = r, slot2 = - 1, slot3 = a\<rparr>
    \<and> transaction (blockVector st' ! (length (blockVector st) + 1))
        = \<lparr>type = RECEIPT, slot0 = r, slot1 = snd (latest_receipt (blockVector st) r),
           slot2 = index (blockVector st' ! length (blockVector st)),
           slot3 = fst (latest_receipt (blockVector st) r) + a\<rparr>
    \<and> latest_receipt (blockVector st') 0 = latest_receipt (blockVector st) 0
    \<and> unat (fst (latest_receipt (blockVector st') r))
        = (unat (fst (latest_receipt (blockVector st) r)) + unat a) mod 2 ^ 32"
  proof (rule impI)
    assume s: "sendAmount 0 r a a1 a2 a3 st = Some (0, st')"
    note m = mint_blocks [OF s]
    note b = accepted_balances [OF s]
    have "unat (fst (latest_receipt (blockVector st') r))
        = (unat (fst (latest_receipt (blockVector st) r)) + unat a) mod 2 ^ 32"
      by (simp add: b(1) unat_word_ariths)
    moreover have "latest_receipt (blockVector st') 0 = latest_receipt (blockVector st) 0"
      using b(2) by simp
    moreover have "transaction (blockVector st' ! (length (blockVector st) + 1))
        = \<lparr>type = RECEIPT, slot0 = r, slot1 = snd (latest_receipt (blockVector st) r),
           slot2 = index (blockVector st' ! length (blockVector st)),
           slot3 = fst (latest_receipt (blockVector st) r) + a\<rparr>"
      using m(6) by (simp add: m(4))
    ultimately show "length (blockVector st') = length (blockVector st) + 2
    \<and> take (length (blockVector st) - 1) (blockVector st') = butlast (blockVector st)
    \<and> transaction (blockVector st' ! length (blockVector st))
        = \<lparr>type = GENERATE, slot0 = 0, slot1 = r, slot2 = - 1, slot3 = a\<rparr>
    \<and> transaction (blockVector st' ! (length (blockVector st) + 1))
        = \<lparr>type = RECEIPT, slot0 = r, slot1 = snd (latest_receipt (blockVector st) r),
           slot2 = index (blockVector st' ! length (blockVector st)),
           slot3 = fst (latest_receipt (blockVector st) r) + a\<rparr>
    \<and> latest_receipt (blockVector st') 0 = latest_receipt (blockVector st) 0
    \<and> unat (fst (latest_receipt (blockVector st') r))
        = (unat (fst (latest_receipt (blockVector st) r)) + unat a) mod 2 ^ 32"
      using m(1,2,5) by blast
  qed
next
  show "run [c1, c2, c3, c4] (genesis data seed amb) = Some st4
      \<and> list_all (\<lambda>c. call_sender c = 0 \<and> call_receiver c = 1 \<and> call_amount c = 50) [c1, c2, c3, c4]
      \<longrightarrow> length (blockVector st4) = 9 \<and> fst (latest_receipt (blockVector st4) 1) = 200"
    using four_mints by blast
qed

theorem mint_behaviour_witness:
  "sendAmount 0 1 50 (tick 14365) (tick 17031) (tick 17032) after_first = Some (0, after_second)
   \<and> length (blockVector after_second) = length (blockVector after_first) + 2
   \<and> transaction (blockVector after_second ! length (blockVector after_first))
        = \<lparr>type = GENERATE, slot0 = 0, slot1 = 1, slot2 = - 1, slot3 = 50\<rparr>
   \<and> unat (fst (latest_receipt (blockVector after_second) 1))
        = (unat (fst (latest_receipt (blockVector after_first) 1)) + unat (50::u32)) mod 2 ^ 32
   \<and> run mint_calls (genesis demo_data 42 (tick 2404)) = Some after_mints
   \<and> list_all (\<lambda>c. call_sender c = 0 \<and> call_receiver c = 1 \<and> call_amount c = 50) mint_calls
   \<and> length (blockVector after_mints) = 9 \<and> fst (latest_receipt (blockVector after_mints) 1) = 200"
proof -
  have l: "list_all (\<lambda>c. call_sender c = 0 \<and> call_receiver c = 1 \<and> call_amount c = 50) mint_calls"
    by (simp add: mint_calls_def call_def)
  have r: "run [call 0 1 50 3140 5025 5026, call 0 1 50 7717 26165 26166,
      call 0 1 50 30777 34956 34957, call 0 1 50 36834 40512 40513]
      (genesis demo_data 42 (tick 2404)) = Some after_mints"
    using run_mints by (simp only: mint_calls_def)
  note t1 = mint_behaviour [of 1 50 "tick 14365" "tick 17031" "tick 17032" after_first after_second
      "call 0 1 50 3140 5025 5026" "call 0 1 50 7717 26165 26166"
      "call 0 1 50 30777 34956 34957" "call 0 1 50 36834 40512 40513"
      demo_data 42 "tick 2404" after_mints]
  from t1 sendAmount_second
  have a: "length (blockVector after_second) = length (blockVector after_first) + 2"
    "transaction (blockVector after_second ! length (blockVector after_first))
        = \<lparr>type = GENERATE, slot0 = 0, slot1 = 1, slot2 = - 1, slot3 = 50\<rparr>"
    "unat (fst (latest_receipt (blockVector after_second) 1))
        = (unat (fst (latest_receipt (blockVector after_first) 1)) + unat (50::u32)) mod 2 ^ 32"
    by blast+
  from t1 r l [unfolded mint_calls_def]
  have b: "length (blockVector after_mints) = 9" "fst (latest_receipt (blockVector after_mints) 1) = 200"
    by blast+
  show ?thesis by (intro conjI sendAmount_second a run_mints l b)
qed

text \<open>
  The claim as stated fails where the sum does not fit: account 2 holds 4294967295, is
  minted 1, and holds 0 afterwards.
\<close>

theorem mint_overflow:
  "run [first_call] (genesis demo_data 42 (tick 2404)) = Some after_first
   \<and> sendAmount 0 2 1 (tick 12998) (tick 15090) (tick 15091) after_first = Some (0, after_wrap)
   \<and> fst (latest_receipt (blockVector after_first) 2) = 4294967295
   \<and> fst (latest_receipt (blockVector after_wrap) 2) = 0
   \<and> unat (fst (latest_receipt (blockVector after_wrap) 2))
         \<noteq> unat (fst (latest_receipt (blockVector after_first) 2)) + unat (1::u32)"
proof -
  have "fst (latest_receipt (blockVector after_first) 2) = 4294967295"
    and "fst (latest_receipt (blockVector after_wrap) 2) = 0"
    and "unat (fst (latest_receipt (blockVector after_wrap) 2))
         \<noteq> unat (fst (latest_receipt (blockVector after_first) 2)) + unat (1::u32)"
    by (simp_all add: balances_first balances_wrap)
  then show ?thesis by (intro conjI run_first sendAmount_wrap)
qed

section \<open>The miner\<close>

text \<open>
  Claim C9, as the code has it. \<^verbatim>\<open>hashBlock(block, t)\<close> with \<open>t\<close> below \<^verbatim>\<open>UINT_MAX\<close> returns
  exactly when some nonce is accepted, that is when the digest of the image with that
  nonce and threshold \<open>t\<close> is at most \<open>t\<close>. When it returns, the block holds threshold \<open>t\<close>
  and the first accepted nonce, counting from 0, its other fields are as before, and
  the value returned is the digest of the block as left, which is at most \<open>t\<close>.
\<close>

theorem mine_contract:
  "t \<noteq> - 1 \<longrightarrow>
      ((\<exists>n. accepts b t n) \<longleftrightarrow> hashBlock b t \<noteq> None)
    \<and> (\<forall>h b'. hashBlock b t = Some (h, b') \<longrightarrow>
          b' = b\<lparr>threshold := t, nonce := nonce b'\<rparr> \<and> accepts b t (nonce b')
        \<and> (\<forall>m. m < nonce b' \<longrightarrow> \<not> accepts b t m) \<and> h = digest b' \<and> h \<le> t)"
proof (rule impI, rule conjI)
  assume t: "t \<noteq> - 1"
  show "(\<exists>n. accepts b t n) \<longleftrightarrow> hashBlock b t \<noteq> None"
  proof
    assume "\<exists>n. accepts b t n"
    then obtain n where "accepts b t n" and "\<forall>m<n. \<not> accepts b t m"
      using exists_least_iff [of "accepts b t"] by blast
    from hashBlock_first [OF t this] show "hashBlock b t \<noteq> None" by simp
  next
    assume "hashBlock b t \<noteq> None"
    then obtain h b' where "hashBlock b t = Some (h, b')" by auto
    from hashBlock_sound [OF t this] show "\<exists>n. accepts b t n" by blast
  qed
next
  assume t: "t \<noteq> - 1"
  show "\<forall>h b'. hashBlock b t = Some (h, b') \<longrightarrow>
        b' = b\<lparr>threshold := t, nonce := nonce b'\<rparr> \<and> accepts b t (nonce b')
      \<and> (\<forall>m. m < nonce b' \<longrightarrow> \<not> accepts b t m) \<and> h = digest b' \<and> h \<le> t"
  proof (rule allI, rule allI, rule impI)
    fix h b'
    assume r: "hashBlock b t = Some (h, b')"
    note s = hashBlock_sound [OF t r]
    from s have e: "b' = b\<lparr>threshold := t, nonce := nonce b'\<rparr>" and hd: "h = digest b'"
      and a: "accepts b t (nonce b')" by blast+
    from a have "digest (b\<lparr>threshold := t, nonce := nonce b'\<rparr>) \<le> t" by (simp add: accepts_def)
    with e hd have "h \<le> t" by simp
    with s show "b' = b\<lparr>threshold := t, nonce := nonce b'\<rparr> \<and> accepts b t (nonce b')
      \<and> (\<forall>m. m < nonce b' \<longrightarrow> \<not> accepts b t m) \<and> h = digest b' \<and> h \<le> t"
      by blast
  qed
qed

theorem mine_contract_witness:
  "threshold_const \<noteq> - 1
   \<and> hashBlock stale_block threshold_const
        = Some (740579, stale_block\<lparr>threshold := threshold_const, nonce := 2\<rparr>)
   \<and> (\<exists>n. accepts stale_block threshold_const n)
   \<and> accepts stale_block threshold_const 2
   \<and> \<not> accepts stale_block threshold_const 1
   \<and> \<not> accepts stale_block threshold_const 0
   \<and> (740579 :: u32) = digest (stale_block\<lparr>threshold := threshold_const, nonce := 2\<rparr>)
   \<and> (740579 :: u32) \<le> threshold_const"
proof -
  have e: "hashBlock stale_block threshold_const
        = Some (740579, stale_block\<lparr>threshold := threshold_const, nonce := 2\<rparr>)"
    by code_simp
  note c = mine_contract [of threshold_const stale_block]
  from c threshold_const_not_max e have x: "\<exists>n. accepts stale_block threshold_const n"
    by simp
  from c threshold_const_not_max e
  have "accepts stale_block threshold_const
          (nonce (stale_block\<lparr>threshold := threshold_const, nonce := 2\<rparr>))"
    and "\<forall>m. m < nonce (stale_block\<lparr>threshold := threshold_const, nonce := 2\<rparr>)
           \<longrightarrow> \<not> accepts stale_block threshold_const m"
    and d: "(740579 :: u32) = digest (stale_block\<lparr>threshold := threshold_const, nonce := 2\<rparr>)"
    and l: "(740579 :: u32) \<le> threshold_const"
    by blast+
  then have a: "accepts stale_block threshold_const 2"
    and f: "\<forall>m. m < 2 \<longrightarrow> \<not> accepts stale_block threshold_const m" by simp_all
  have "(1 :: u32) < 2" and "(0 :: u32) < 2" by simp_all
  with f have r1: "\<not> accepts stale_block threshold_const 1"
    and r0: "\<not> accepts stale_block threshold_const 0" by blast+
  show ?thesis by (intro conjI threshold_const_not_max e x a r1 r0 d l)
qed

text \<open>
  The claim as stated fails at the threshold 1, which is not zero: for the genesis block
  that \<^verbatim>\<open>main\<close> builds when the clock reads 1 tick, no nonce gives a digest of 0 or 1, and
  \<^verbatim>\<open>hashBlock\<close> does not return. It also fails at the threshold \<^verbatim>\<open>UINT_MAX\<close>: the call returns,
  but the block keeps the nonce 7 it held, although nonce 0 is accepted, and the value
  returned is not the digest of the block.
\<close>

theorem mine_may_not_return:
  "(1 :: u32) \<noteq> 0
   \<and> blockVector (genesis demo_data 42 (tick 1)) = [early_block]
   \<and> hashBlock early_block 1 = None
   \<and> (- 1 :: u32) \<noteq> 0
   \<and> hashBlock stale_block (- 1) = Some (- 1, stale_block\<lparr>threshold := - 1\<rparr>)
   \<and> nonce (stale_block\<lparr>threshold := - 1\<rparr>) = 7
   \<and> accepts stale_block (- 1) 0
   \<and> digest (stale_block\<lparr>threshold := - 1\<rparr>) \<noteq> - 1"
proof -
  have g: "blockVector (genesis demo_data 42 (tick 1)) = [early_block]" by code_simp
  have k: "nonce (stale_block\<lparr>threshold := - 1\<rparr>) = 7" by (simp add: stale_block_def blk_def)
  have a: "accepts stale_block (- 1) 0" by (simp add: accepts_def)
  have d: "digest (stale_block\<lparr>threshold := - 1\<rparr>) \<noteq> - 1" by code_simp
  have o: "(1 :: u32) \<noteq> 0" and m: "(- 1 :: u32) \<noteq> 0" by simp_all
  show ?thesis by (intro conjI o g early_block_diverges m hashBlock_max k a d)
qed

section \<open>The receipt of a valid transfer\<close>

text \<open>
  Claim C10. No call of \<^verbatim>\<open>sendAmount\<close> returns \<open>-2\<close>: it returns 0 or \<open>-1\<close>. A transaction
  that \<^verbatim>\<open>generateTransfer\<close> built and that is not \<^verbatim>\<open>INVALID\<close> is a \<^verbatim>\<open>GENERATE\<close> or a
  \<^verbatim>\<open>TRANSFER\<close>, so \<^verbatim>\<open>generateReceipt\<close>, given the block that \<^verbatim>\<open>generateBlock\<close> makes of it,
  returns a \<^verbatim>\<open>RECEIPT\<close> whatever the chain is.
\<close>
theorem receipt_never_rejected:
  "(sendAmount s r a a1 a2 a3 st = Some (rc, st') \<longrightarrow> rc \<noteq> - 2 \<and> (rc = 0 \<or> rc = - 1))
   \<and> (type (generateTransfer chain s r a) \<noteq> INVALID \<longrightarrow>
        type (generateReceipt chain' (fst (generateBlock (generateTransfer chain s r a) h amb c)))
          = RECEIPT)"
proof (rule conjI)
  show "sendAmount s r a a1 a2 a3 st = Some (rc, st') \<longrightarrow> rc \<noteq> - 2 \<and> (rc = 0 \<or> rc = - 1)"
  proof (rule impI)
    assume "sendAmount s r a a1 a2 a3 st = Some (rc, st')"
    then show "rc \<noteq> - 2 \<and> (rc = 0 \<or> rc = - 1)"
      by (cases rule: sendAmount_elim) simp_all
  qed
next
  show "type (generateTransfer chain s r a) \<noteq> INVALID \<longrightarrow>
        type (generateReceipt chain' (fst (generateBlock (generateTransfer chain s r a) h amb c)))
          = RECEIPT"
  proof (rule impI)
    assume v: "type (generateTransfer chain s r a) \<noteq> INVALID"
    with generateTransfer_type [of chain s r a]
    have "type (generateTransfer chain s r a) \<noteq> RECEIPT" by auto
    with v show "type (generateReceipt chain' (fst (generateBlock (generateTransfer chain s r a) h amb c)))
          = RECEIPT"
      by (simp add: generateReceipt_type generateBlock_def)
  qed
qed

theorem receipt_never_rejected_witness:
  "sendAmount 1 2 1 (tick 17914) (tick 22237) (tick 23112) after_second = Some (0, after_pay)
   \<and> (0::int) \<noteq> - 2
   \<and> type (generateTransfer (blockVector after_second) 1 2 1) \<noteq> INVALID
   \<and> type (generateReceipt (blockVector after_second)
        (fst (generateBlock (generateTransfer (blockVector after_second) 1 2 1) 544124 (tick 17914) 7)))
       = RECEIPT"
proof -
  note t = receipt_never_rejected [of 1 2 1 "tick 17914" "tick 22237" "tick 23112" after_second 0
      after_pay "blockVector after_second" "blockVector after_second" 544124 "tick 17914" 7]
  from t sendAmount_pay have a: "(0::int) \<noteq> - 2" by blast
  have v: "type (generateTransfer (blockVector after_second) 1 2 1) \<noteq> INVALID"
    by (simp add: generateTransfer_invalid_iff balances_second)
  from t v have r: "type (generateReceipt (blockVector after_second)
        (fst (generateBlock (generateTransfer (blockVector after_second) 1 2 1) 544124 (tick 17914) 7)))
       = RECEIPT" by blast
  show ?thesis by (intro conjI sendAmount_pay a v r)
qed

end
